theory Spec2Isabelle
  imports Main "HOL-Library.Word" "HOL-Library.Monad_Syntax"
begin

unbundle bit_operations_syntax

section \<open>Octets, views and errors\<close>

text \<open>
  An input view \<open>(p, n)\<close> of the parser is a \<open>string\<close> (a list of 8-bit characters); an
  iterator \<open>char const*\<close> into it is an index. The C++ code dereferences iterators
  without comparing them with the end of the view: \<open>rd\<close> is that dereference, and it
  yields \<open>None\<close> outside the view. Every function that dereferences returns an
  \<open>option\<close>, \<open>None\<close> standing for a read outside the view.
\<close>

abbreviation CR :: char where "CR \<equiv> CHR 0x0D"
abbreviation LF :: char where "LF \<equiv> CHR 0x0A"
abbreviation SP :: char where "SP \<equiv> CHR 0x20"
abbreviation HT :: char where "HT \<equiv> CHR 0x09"

definition CRLF :: string where
  "CRLF = [CR, LF]"

definition rd :: "string \<Rightarrow> nat \<Rightarrow> char option" where
  "rd buf i = (if i < length buf then Some (buf ! i) else None)"

text \<open>\<open>enum class error\<close> of new_basic_parser.hpp.\<close>

datatype error =
    need_more | bad_method | bad_path | bad_version | bad_status | bad_reason
  | bad_field | bad_value | bad_content_length | bad_transfer_encoding
  | bad_chunk | short_read

text \<open>
  \<open>make_string(first, last)\<close>: the \<open>string_ref\<close> of \<open>size_t(last - first)\<close> octets from
  \<open>first\<close>. Where \<open>last\<close> lies before \<open>first\<close> the size wraps around to
  \<open>2^64 - (first - last)\<close>, more than any input holds. Of a \<open>string_ref\<close> that reaches
  past the end of the input, the model keeps the octets that the input holds.
\<close>

definition make_string :: "string \<Rightarrow> nat \<Rightarrow> nat \<Rightarrow> string" where
  "make_string buf first lst =
     (if first \<le> lst then take (lst - first) (drop first buf) else drop first buf)"

section \<open>Scanner primitives (detail/new_basic_parser.hpp)\<close>

text \<open>
  The three 256-entry tables \<open>is_pathchar\<close>, \<open>is_value_char\<close> and \<open>is_text\<close>, by the
  index ranges that hold 1. The first two tables are equal: 0 at 0..32 and at 127.
  \<open>is_text\<close> holds 1 at 9 and at 32..126 and 128..255.
\<close>

definition is_pathchar :: "char \<Rightarrow> bool" where
  "is_pathchar c = (let n = (of_char c :: nat) in 32 < n \<and> n \<noteq> 127)"

definition is_value_char :: "char \<Rightarrow> bool" where
  "is_value_char c = (let n = (of_char c :: nat) in 32 < n \<and> n \<noteq> 127)"

definition is_text :: "char \<Rightarrow> bool" where
  "is_text c = (let n = (of_char c :: nat) in n = 9 \<or> (32 \<le> n \<and> n \<noteq> 127))"

text \<open>
  The table of \<open>unhex\<close>, as the initialiser list of the source evaluates. Eight rows of
  the list end without a comma, so the row's last \<open>-1\<close> and the next row's first \<open>-1\<close>
  form the one expression \<open>-1 -1 = -2\<close>: the list has 248 entries, \<open>-2\<close> at the indices
  127, 142, 157, 172, 187, 202, 217, 232, and the eight entries 248..255 without an
  initialiser are 0.
\<close>

definition unhex_tab :: "nat \<Rightarrow> int" where
  "unhex_tab n =
     (if 48 \<le> n \<and> n \<le> 57 then int n - 48
      else if 65 \<le> n \<and> n \<le> 70 then int n - 55
      else if 97 \<le> n \<and> n \<le> 102 then int n - 87
      else if n \<in> {127, 142, 157, 172, 187, 202, 217, 232} then - 2
      else if 248 \<le> n then 0
      else - 1)"

text \<open>
  \<open>unhex(d, c)\<close>: \<open>d\<close> is the table entry cast to \<open>unsigned char\<close>, the result is
  \<open>d != 255\<close>.
\<close>

definition unhex :: "char \<Rightarrow> nat \<times> bool" where
  "unhex c = (let d = nat (unhex_tab (of_char c) mod 256) in (d, d \<noteq> 255))"

text \<open>\<open>is_digit(c)\<close>: \<open>static_cast<unsigned char>(c - '0') < 10\<close>.\<close>

definition is_digit :: "char \<Rightarrow> bool" where
  "is_digit c = ((int (of_char c) - 48) mod 256 < 10)"

definition digit_val :: "char \<Rightarrow> nat" where
  "digit_val c = of_char c - 48"

text \<open>
  \<open>parse_dec(it, last, v)\<close> for an \<open>Unsigned\<close> of \<open>w\<close> bits. The parameter \<open>last\<close> is
  received and never read. The result is the returned \<open>bool\<close>, the value left in \<open>v\<close>,
  and the index of the last position dereferenced.
\<close>

function parse_dec_loop :: "nat \<Rightarrow> string \<Rightarrow> nat \<Rightarrow> nat \<Rightarrow> (bool \<times> nat \<times> nat) option" where
  "parse_dec_loop w buf it v =
     (case rd buf (it + 1) of
        None \<Rightarrow> None
      | Some c \<Rightarrow>
          if \<not> is_digit c then Some (True, v, it + 1)
          else if v > (2 ^ w - 1 - 10) div 10 then Some (False, v, it + 1)
          else parse_dec_loop w buf (it + 1) ((10 * v + digit_val c) mod 2 ^ w))"
  by pat_completeness auto
termination
  by (relation "measure (\<lambda>(w, buf, it, v). length buf - it)")
     (auto simp: rd_def split: if_splits)

declare parse_dec_loop.simps [simp del]

definition parse_dec :: "nat \<Rightarrow> string \<Rightarrow> nat \<Rightarrow> nat \<Rightarrow> (bool \<times> nat \<times> nat) option" where
  "parse_dec w buf it lst =
     (case rd buf it of
        None \<Rightarrow> None
      | Some c \<Rightarrow>
          if \<not> is_digit c then Some (False, 0, it)
          else parse_dec_loop w buf it (digit_val c mod 2 ^ w))"

text \<open>
  \<open>parse_hex(it, v)\<close>: \<open>it\<close> is passed by reference. The result is the returned
  \<open>bool\<close>, the value left in \<open>v\<close> and the new \<open>it\<close>.
\<close>

function parse_hex_loop :: "nat \<Rightarrow> string \<Rightarrow> nat \<Rightarrow> nat \<Rightarrow> (bool \<times> nat \<times> nat) option" where
  "parse_hex_loop w buf it v =
     (case rd buf (it + 1) of
        None \<Rightarrow> None
      | Some c \<Rightarrow>
          if \<not> snd (unhex c) then Some (True, v, it + 1)
          else
            let v0 = v; v' = (16 * v + fst (unhex c)) mod 2 ^ w
            in if v' \<le> v0 then Some (False, v', it + 1)
               else parse_hex_loop w buf (it + 1) v')"
  by pat_completeness auto
termination
  by (relation "measure (\<lambda>(w, buf, it, v). length buf - it)")
     (auto simp: rd_def split: if_splits)

declare parse_hex_loop.simps [simp del]

definition parse_hex :: "nat \<Rightarrow> string \<Rightarrow> nat \<Rightarrow> (bool \<times> nat \<times> nat) option" where
  "parse_hex w buf it =
     (case rd buf it of
        None \<Rightarrow> None
      | Some c \<Rightarrow>
          if \<not> snd (unhex c) then Some (False, 0, it)
          else parse_hex_loop w buf it (fst (unhex c) mod 2 ^ w))"

text \<open>\<open>parse_crlf(it)\<close>: the returned \<open>bool\<close> and the new \<open>it\<close>.\<close>

definition parse_crlf :: "string \<Rightarrow> nat \<Rightarrow> (bool \<times> nat) option" where
  "parse_crlf buf it =
     (case rd buf it of
        None \<Rightarrow> None
      | Some c \<Rightarrow>
          if c \<noteq> CR then Some (False, it)
          else (case rd buf (it + 1) of
                  None \<Rightarrow> None
                | Some d \<Rightarrow> if d \<noteq> LF then Some (False, it + 1) else Some (True, it + 2)))"

text \<open>The loop \<open>while(f(*it)) ++it\<close>: the index where it stops.\<close>

function scan_while :: "(char \<Rightarrow> bool) \<Rightarrow> string \<Rightarrow> nat \<Rightarrow> nat option" where
  "scan_while f buf it =
     (case rd buf it of
        None \<Rightarrow> None
      | Some c \<Rightarrow> if f c then scan_while f buf (it + 1) else Some it)"
  by pat_completeness auto
termination
  by (relation "measure (\<lambda>(f, buf, it). length buf - it)")
     (auto simp: rd_def split: if_splits)

declare scan_while.simps [simp del]

text \<open>
  \<open>parse_as(it, f)\<close>: the run of \<open>f\<close>-characters from \<open>it\<close>, or the empty string when
  the run does not end at a space; and the new \<open>it\<close>.
\<close>

definition parse_as :: "(char \<Rightarrow> bool) \<Rightarrow> string \<Rightarrow> nat \<Rightarrow> (string \<times> nat) option" where
  "parse_as f buf it =
     (case scan_while f buf it of
        None \<Rightarrow> None
      | Some it' \<Rightarrow>
          (case rd buf it' of
             None \<Rightarrow> None
           | Some c \<Rightarrow> if c \<noteq> SP then Some ([], it') else Some (make_string buf it it', it')))"

text \<open>\<open>parse_version(it)\<close>: \<open>10 * major + minor\<close> or \<open>-1\<close>, and the new \<open>it\<close>.\<close>

definition parse_version :: "string \<Rightarrow> nat \<Rightarrow> (int \<times> nat) option" where
  "parse_version buf it = do {
     c0 \<leftarrow> rd buf it;
     if c0 \<noteq> CHR ''H'' then Some (- 1, it) else do {
     c1 \<leftarrow> rd buf (it + 1);
     if c1 \<noteq> CHR ''T'' then Some (- 1, it + 1) else do {
     c2 \<leftarrow> rd buf (it + 2);
     if c2 \<noteq> CHR ''T'' then Some (- 1, it + 2) else do {
     c3 \<leftarrow> rd buf (it + 3);
     if c3 \<noteq> CHR ''P'' then Some (- 1, it + 3) else do {
     c4 \<leftarrow> rd buf (it + 4);
     if c4 \<noteq> CHR ''/'' then Some (- 1, it + 4) else do {
     c5 \<leftarrow> rd buf (it + 5);
     if \<not> is_digit c5 then Some (- 1, it + 5) else do {
     c6 \<leftarrow> rd buf (it + 6);
     if c6 \<noteq> CHR ''.'' then Some (- 1, it + 6) else do {
     c7 \<leftarrow> rd buf (it + 7);
     if \<not> is_digit c7 then Some (- 1, it + 7)
     else Some (10 * int (digit_val c5) + int (digit_val c7), it + 8) }}}}}}}}"

text \<open>\<open>parse_status(it)\<close>: the three-digit value or \<open>-1\<close>, and the new \<open>it\<close>.\<close>

definition parse_status :: "string \<Rightarrow> nat \<Rightarrow> (int \<times> nat) option" where
  "parse_status buf it = do {
     c0 \<leftarrow> rd buf it;
     if \<not> is_digit c0 then Some (- 1, it) else do {
     c1 \<leftarrow> rd buf (it + 1);
     if \<not> is_digit c1 then Some (- 1, it + 1) else do {
     c2 \<leftarrow> rd buf (it + 2);
     if \<not> is_digit c2 then Some (- 1, it + 2)
     else Some (100 * int (digit_val c0) + 10 * int (digit_val c1) + int (digit_val c2),
                it + 3) }}}"

text \<open>
  \<open>parse_reason(it)\<close>: the loop stops at the first CR, or at the first octet that is
  not \<open>is_text\<close>, where the function returns the empty \<open>string_ref\<close>.
\<close>

function parse_reason_loop :: "string \<Rightarrow> nat \<Rightarrow> (bool \<times> nat) option" where
  "parse_reason_loop buf it =
     (case rd buf it of
        None \<Rightarrow> None
      | Some c \<Rightarrow>
          if c = CR then Some (True, it)
          else if \<not> is_text c then Some (False, it)
          else parse_reason_loop buf (it + 1))"
  by pat_completeness auto
termination
  by (relation "measure (\<lambda>(buf, it). length buf - it)")
     (auto simp: rd_def split: if_splits)

declare parse_reason_loop.simps [simp del]

definition parse_reason :: "string \<Rightarrow> nat \<Rightarrow> (string \<times> nat) option" where
  "parse_reason buf it =
     (case parse_reason_loop buf it of
        None \<Rightarrow> None
      | Some (ok, it') \<Rightarrow> if ok then Some (make_string buf it it', it') else Some ([], it'))"

text \<open>
  \<open>find_crlf(first, last)\<close> and \<open>find_2x_crlf(first, last)\<close> (the branch for
  \<open>BOOST_VERSION >= 106200\<close>): the Boyer-Moore searcher of Boost returns the range of
  the first occurrence of the pattern in \<open>[first, last)\<close>, or \<open>(last, last)\<close>. The
  result here is the index \<open>term.first\<close> of the occurrence, \<open>None\<close> when
  \<open>term.first == term.second\<close>.
\<close>

fun search :: "string \<Rightarrow> string \<Rightarrow> nat option" where
  "search pat [] = None"
| "search pat (c # cs) =
     (if take (length pat) (c # cs) = pat then Some 0
      else map_option Suc (search pat cs))"

definition find_crlf :: "string \<Rightarrow> nat \<Rightarrow> nat \<Rightarrow> nat option" where
  "find_crlf buf first lst =
     map_option (\<lambda>k. first + k) (search [CR, LF] (take (lst - first) (drop first buf)))"

definition find_2x_crlf :: "string \<Rightarrow> nat \<Rightarrow> nat \<Rightarrow> nat option" where
  "find_2x_crlf buf first lst =
     map_option (\<lambda>k. first + k)
       (search [CR, LF, CR, LF] (take (lst - first) (drop first buf)))"


section \<open>Parser state and host callbacks (new_basic_parser.hpp, new_parser.hpp)\<close>

text \<open>
  The callbacks of \<open>Derived\<close>. The \<open>Derived\<close> of the repository is \<open>new_parser\<close>, whose
  callbacks store or drop their arguments and never assign \<open>ec\<close>; the model records
  each call with its arguments, in order, in the field \<open>calls\<close>.
\<close>

datatype event =
    on_request string string int
  | on_response int string int
  | on_field string string
  | on_header
  | on_chunk nat string

text \<open>
  The data members of \<open>new_basic_parser\<close>. \<open>buf_\<close> is the content of the array of
  \<open>buf_len_\<close> octets that \<open>buf_\<close> points to (empty for \<open>nullptr\<close>).
\<close>

record parser =
  buf_m :: string
  buf_len_m :: nat
  len_m :: "64 word"
  skip_m :: "32 word"
  x_m :: "32 word"
  f_m :: "8 word"
  calls :: "event list"

definition flagContentLength :: "8 word" where "flagContentLength = 1"
definition flagChunked :: "8 word" where "flagChunked = 2"
definition flagUpgrade :: "8 word" where "flagUpgrade = 4"
definition flagHeader :: "8 word" where "flagHeader = 8"
definition flagDone :: "8 word" where "flagDone = 16"
definition flagExpectCRLF :: "8 word" where "flagExpectCRLF = 32"
definition flagFinalChunk :: "8 word" where "flagFinalChunk = 64"
definition flagSkipBody :: "8 word" where "flagSkipBody = 128"

lemmas flag_defs =
  flagContentLength_def flagChunked_def flagUpgrade_def flagHeader_def flagDone_def
  flagExpectCRLF_def flagFinalChunk_def flagSkipBody_def

text \<open>
  A newly constructed parser. \<open>x_\<close> has no initialiser in the class; its first value is
  the parameter \<open>x0\<close>.
\<close>

definition new_parser :: "32 word \<Rightarrow> parser" where
  "new_parser x0 =
     \<lparr>buf_m = [], buf_len_m = 0, len_m = - 1, skip_m = 0, x_m = x0, f_m = 0, calls = []\<rparr>"

definition is_done :: "parser \<Rightarrow> bool" where
  "is_done s = (f_m s AND flagDone \<noteq> 0)"

definition have_header :: "parser \<Rightarrow> bool" where
  "have_header s = (f_m s AND flagHeader \<noteq> 0)"

definition is_chunked :: "parser \<Rightarrow> bool" where
  "is_chunked s = (f_m s AND flagChunked \<noteq> 0)"

definition content_length :: "parser \<Rightarrow> 64 word option" where
  "content_length s = (if f_m s AND flagContentLength = 0 then None else Some (len_m s))"

definition remain :: "parser \<Rightarrow> 64 word" where
  "remain s = (if f_m s AND (flagContentLength OR flagChunked) \<noteq> 0 then len_m s else 65536)"

definition needs_eof :: "parser \<Rightarrow> bool" where
  "needs_eof s = (f_m s AND (flagChunked + flagContentLength) = 0)"

definition consume :: "parser \<Rightarrow> 64 word \<Rightarrow> parser" where
  "consume s n = s\<lparr>len_m := len_m s - n\<rparr>"

section \<open>Functions of rfc7230.hpp and ci_char_traits.hpp\<close>

text \<open>
  Modelled from the spec: \<open>detail::is_tchar\<close> (rfc7230.hpp is not among the sources).
  The spec's token characters are the letters, the digits and the set
  \<open>!#$%&'*+-.^_`|~\<close>.
\<close>

definition is_tchar :: "char \<Rightarrow> bool" where
  "is_tchar c =
     (let n = (of_char c :: nat)
      in (65 \<le> n \<and> n \<le> 90) \<or> (97 \<le> n \<and> n \<le> 122) \<or> (48 \<le> n \<and> n \<le> 57)
         \<or> c \<in> set ''!#$%&*+-.^_`|~'' \<or> n = 39)"

text \<open>
  Modelled from the spec: \<open>detail::to_field_char\<close> (rfc7230.hpp). The spec reads a
  field name as a run of token characters, any other octet before the colon being
  \<open>BadField\<close>: the result is non-zero exactly for a token character.
\<close>

definition to_field_char :: "char \<Rightarrow> bool" where
  "to_field_char c = is_tchar c"

text \<open>
  Modelled from the spec: \<open>beast::detail::ci_equal\<close> (ci_char_traits.hpp), the spec's
  case-insensitive name comparison: equality after mapping \<open>A..Z\<close> to \<open>a..z\<close>.
\<close>

definition to_lower :: "char \<Rightarrow> char" where
  "to_lower c =
     (let n = (of_char c :: nat) in if 65 \<le> n \<and> n \<le> 90 then char_of (n + 32) else c)"

definition ci_equal :: "string \<Rightarrow> string \<Rightarrow> bool" where
  "ci_equal a b = (map to_lower a = map to_lower b)"

text \<open>
  Modelled from the spec: \<open>token_list\<close> (rfc7230.hpp), the spec's comma-separated
  token list: the elements between commas, without their leading and trailing SP and
  HTAB, the empty elements left out.
\<close>

definition is_ows :: "char \<Rightarrow> bool" where
  "is_ows c = (c = SP \<or> c = HT)"

definition trim_ows :: "string \<Rightarrow> string" where
  "trim_ows xs = rev (dropWhile is_ows (rev (dropWhile is_ows xs)))"

fun split_commas :: "string \<Rightarrow> string \<Rightarrow> string list" where
  "split_commas acc [] = [rev acc]"
| "split_commas acc (c # cs) =
     (if c = CHR '','' then rev acc # split_commas [] cs else split_commas (c # acc) cs)"

definition token_list :: "string \<Rightarrow> string list" where
  "token_list v = filter (\<lambda>t. t \<noteq> []) (map trim_ows (split_commas [] v))"

text \<open>
  \<open>std::find_if(v.begin(), v.end(), pred)\<close> as the index of the first element with
  \<open>pred\<close>, \<open>length v\<close> for \<open>v.end()\<close>.
\<close>

definition find_if :: "('a \<Rightarrow> bool) \<Rightarrow> 'a list \<Rightarrow> nat" where
  "find_if pred v = length (takeWhile (\<lambda>t. \<not> pred t) v)"

text \<open>
  \<open>std::next(it) != v.end()\<close>. When \<open>it\<close> is \<open>v.end()\<close> the value is what the
  increment of the end iterator of \<open>token_list\<close> gives, which the sources do not
  contain: it is the parameter \<open>ne\<close> of the model.
\<close>

definition next_ne_end :: "bool \<Rightarrow> 'a list \<Rightarrow> nat \<Rightarrow> bool" where
  "next_ne_end ne v it = (if it < length v then it + 1 \<noteq> length v else ne)"

section \<open>The grammar layer (impl/new_basic_parser.ipp)\<close>

text \<open>
  Every function that has an \<open>error_code& ec\<close> parameter returns the value it
  assigns to \<open>ec\<close>, \<open>None\<close> when it assigns none; \<open>ec\<close> is clear on entry, as in every
  call \<open>new_read\<close> makes to \<open>write\<close>. The outer \<open>option\<close> is \<open>None\<close> when the call
  reads outside the view or fails a \<open>BOOST_ASSERT\<close>.
\<close>

definition do_field ::
  "bool \<Rightarrow> string \<Rightarrow> string \<Rightarrow> nat \<Rightarrow> nat \<Rightarrow> parser \<Rightarrow> (error option \<times> parser) option" where
  "do_field ne buf name vfirst vlast s =
     (if ci_equal name ''Content-Length'' then
        (if f_m s AND flagChunked \<noteq> 0 then Some (Some bad_content_length, s)
         else if f_m s AND flagContentLength \<noteq> 0 then Some (Some bad_content_length, s)
         else (case parse_dec 64 buf vfirst vlast of
                 None \<Rightarrow> None
               | Some (ok, v, _) \<Rightarrow>
                   if \<not> ok then Some (Some bad_content_length, s)
                   else Some (None, s\<lparr>len_m := of_nat v, f_m := f_m s OR flagContentLength\<rparr>)))
      else if ci_equal name ''Connection'' then Some (None, s)
      else if ci_equal name ''Transfer-Encoding'' then
        (if f_m s AND flagContentLength \<noteq> 0 then Some (Some bad_transfer_encoding, s)
         else if f_m s AND flagChunked \<noteq> 0 then Some (Some bad_transfer_encoding, s)
         else
           let v = token_list (make_string buf vfirst vlast);
               it = find_if (\<lambda>t. ci_equal t ''chunked'') v
           in if next_ne_end ne v it then Some (Some bad_transfer_encoding, s)
              else Some (None, s\<lparr>f_m := f_m s OR flagChunked\<rparr>))
      else if ci_equal name ''Upgrade'' then Some (None, s)
      else if ci_equal name ''Proxy-Connection'' then Some (None, s)
      else Some (None, s))"

text \<open>\<open>parse_startline\<close>, the overload for requests (\<open>std::true_type\<close>).\<close>

definition parse_startline_request ::
  "string \<Rightarrow> nat \<Rightarrow> parser \<Rightarrow> (error option \<times> nat \<times> parser) option" where
  "parse_startline_request buf it s =
     (case parse_as is_tchar buf it of
        None \<Rightarrow> None
      | Some (method, it1) \<Rightarrow>
          if method = [] then Some (Some bad_method, it1, s)
          else (case parse_as is_pathchar buf (it1 + 1) of
                  None \<Rightarrow> None
                | Some (path, it2) \<Rightarrow>
                    if path = [] then Some (Some bad_path, it2, s)
                    else (case parse_version buf (it2 + 1) of
                            None \<Rightarrow> None
                          | Some (version, it3) \<Rightarrow>
                              if version < 0 then Some (Some bad_version, it3, s)
                              else (case parse_crlf buf it3 of
                                      None \<Rightarrow> None
                                    | Some (ok, it4) \<Rightarrow>
                                        if \<not> ok then Some (Some bad_version, it4, s)
                                        else Some (None, it4,
                                          s\<lparr>calls := calls s @ [on_request method path version]\<rparr>)))))"

text \<open>\<open>parse_startline\<close>, the overload for responses (\<open>std::false_type\<close>).\<close>

definition parse_startline_response ::
  "string \<Rightarrow> nat \<Rightarrow> parser \<Rightarrow> (error option \<times> nat \<times> parser) option" where
  "parse_startline_response buf it s =
     (case parse_version buf it of
        None \<Rightarrow> None
      | Some (version, it1) \<Rightarrow>
          if version < 0 then Some (Some bad_version, it1, s)
          else (case rd buf it1 of
                  None \<Rightarrow> None
                | Some c1 \<Rightarrow>
          if c1 \<noteq> SP then Some (Some bad_version, it1, s)
          else (case parse_status buf (it1 + 1) of
                  None \<Rightarrow> None
                | Some (status, it2) \<Rightarrow>
          if status < 0 then Some (Some bad_status, it2, s)
          else (case rd buf it2 of
                  None \<Rightarrow> None
                | Some c2 \<Rightarrow>
          if c2 \<noteq> SP then Some (Some bad_status, it2, s)
          else (case parse_reason buf (it2 + 1) of
                  None \<Rightarrow> None
                | Some (reason, it3) \<Rightarrow>
          if reason = [] then Some (Some bad_reason, it3, s)
          else (case parse_crlf buf it3 of
                  None \<Rightarrow> None
                | Some (ok, it4) \<Rightarrow>
          if \<not> ok then Some (Some bad_reason, it4, s)
          else Some (None, it4,
                 s\<lparr>calls := calls s @ [on_response status reason version]\<rparr>)))))))"

definition parse_startline ::
  "bool \<Rightarrow> string \<Rightarrow> nat \<Rightarrow> parser \<Rightarrow> (error option \<times> nat \<times> parser) option" where
  "parse_startline isRequest buf it s =
     (if isRequest then parse_startline_request buf it s
      else parse_startline_response buf it s)"

text \<open>
  \<open>parse_fields\<close>. \<open>field_name_loop\<close> is the inner loop that reads the field name:
  it stops at the colon (\<open>True\<close>) or at an octet that is no field character. The
  loop that reads the value is \<open>field_value_loop\<close>, which carries \<open>it\<close> and \<open>last\<close>;
  \<open>field_value_crlf\<close> is the block \<open>if(*it == CR) { ... }\<close> at its head, which
  either assigns \<open>bad_field\<close>, or leaves the loop (\<open>True\<close>) after a CRLF that no SP or
  HTAB follows, or goes on (obs-fold, or no CR).
\<close>

definition field_value_crlf :: "string \<Rightarrow> nat \<Rightarrow> (error option \<times> bool \<times> nat) option" where
  "field_value_crlf buf it =
     (case rd buf it of
        None \<Rightarrow> None
      | Some c \<Rightarrow>
          if c \<noteq> CR then Some (None, False, it)
          else (case rd buf (it + 1) of
                  None \<Rightarrow> None
                | Some d \<Rightarrow>
                    if d \<noteq> LF then Some (Some bad_field, False, it + 1)
                    else (case rd buf (it + 2) of
                            None \<Rightarrow> None
                          | Some e \<Rightarrow>
                              if e \<noteq> SP \<and> e \<noteq> HT then Some (None, True, it + 2)
                              else Some (None, False, it + 2))))"

lemma field_value_crlf_ge:
  "field_value_crlf buf it = Some (ec, brk, it') \<Longrightarrow> it \<le> it'"
  by (auto simp: field_value_crlf_def split: option.splits if_splits)

function field_value_loop :: "string \<Rightarrow> nat \<Rightarrow> nat \<Rightarrow> (error option \<times> nat \<times> nat) option" where
  "field_value_loop buf it lst =
     (case field_value_crlf buf it of
        None \<Rightarrow> None
      | Some (ec, brk, it') \<Rightarrow>
          if ec \<noteq> None then Some (ec, it', lst)
          else if brk then Some (None, it', lst)
          else (case rd buf it' of
                  None \<Rightarrow> None
                | Some c \<Rightarrow>
                    if is_value_char c then field_value_loop buf (it' + 1) (it' + 1)
                    else if c = SP \<or> c = HT then field_value_loop buf (it' + 1) lst
                    else Some (Some bad_value, it', lst)))"
  by pat_completeness auto
termination
  by (relation "measure (\<lambda>(buf, it, lst). length buf - it)")
     (auto simp: rd_def split: if_splits dest!: field_value_crlf_ge)

declare field_value_loop.simps [simp del]

function field_name_loop :: "string \<Rightarrow> nat \<Rightarrow> (bool \<times> nat) option" where
  "field_name_loop buf it =
     (case rd buf it of
        None \<Rightarrow> None
      | Some c \<Rightarrow>
          if c = CHR '':'' then Some (True, it)
          else if \<not> to_field_char c then Some (False, it)
          else field_name_loop buf (it + 1))"
  by pat_completeness auto
termination
  by (relation "measure (\<lambda>(buf, it). length buf - it)")
     (auto simp: rd_def split: if_splits)


declare field_name_loop.simps [simp del]

lemma field_name_loop_ge: "field_name_loop buf it = Some (ok, it') \<Longrightarrow> it \<le> it'"
proof (induction buf it rule: field_name_loop.induct)
  case (1 buf it)
  from "1.prems" show ?case
    by (subst (asm) field_name_loop.simps)
       (auto split: option.splits if_splits dest: "1.IH")
qed

lemma scan_while_ge: "scan_while f buf it = Some it' \<Longrightarrow> it \<le> it'"
proof (induction f buf it rule: scan_while.induct)
  case (1 f buf it)
  from "1.prems" show ?case
    by (subst (asm) scan_while.simps)
       (auto split: option.splits if_splits dest: "1.IH")
qed

lemma field_value_loop_ge:
  "field_value_loop buf it lst = Some (ec, it', lst') \<Longrightarrow> it \<le> it'"
proof (induction "length buf - it" arbitrary: it lst rule: less_induct)
  case less
  have step: "it \<le> it'"
    if "it \<le> b" "rd buf b = Some c" "field_value_loop buf (Suc b) l = Some (ec, it', lst')"
    for b c l
  proof -
    from that have "length buf - Suc b < length buf - it"
      by (auto simp: rd_def split: if_splits)
    from less.hyps[OF this that(3)] that(1) show ?thesis by simp
  qed
  from less.prems show ?case
    by (subst (asm) field_value_loop.simps)
       (auto split: option.splits if_splits dest!: field_value_crlf_ge intro: step)
qed

text \<open>
  One turn of the outer \<open>for(;;)\<close> of \<open>parse_fields\<close>: \<open>Return\<close> when the function
  returns (at the empty line, or with an error), \<open>Again\<close> after a field has been passed
  to \<open>do_field\<close> and to \<open>on_field\<close>. \<open>do_field\<close> receives the value as its bounds in
  the view, since \<open>parse_dec\<close> reads the view from \<open>value.begin()\<close>.
\<close>

datatype step = Return | Again

definition parse_fields_step ::
  "bool \<Rightarrow> string \<Rightarrow> nat \<Rightarrow> parser \<Rightarrow> (step \<times> error option \<times> nat \<times> parser) option" where
  "parse_fields_step ne buf it s =
     (case rd buf it of
        None \<Rightarrow> None
      | Some c \<Rightarrow>
          if c = CR then
            (case rd buf (it + 1) of
               None \<Rightarrow> None
             | Some d \<Rightarrow>
                 if d \<noteq> LF then Some (Return, Some bad_field, it + 1, s)
                 else Some (Return, None, it + 2, s))
          else
            (case field_name_loop buf it of
               None \<Rightarrow> None
             | Some (ok, it1) \<Rightarrow>
                 if \<not> ok then Some (Return, Some bad_field, it1, s)
                 else
                   (case scan_while (\<lambda>c. c = SP \<or> c = HT) buf (it1 + 1) of
                      None \<Rightarrow> None
                    | Some it2 \<Rightarrow>
                        (case field_value_loop buf it2 it2 of
                           None \<Rightarrow> None
                         | Some (ec, it3, lst) \<Rightarrow>
                             if ec \<noteq> None then Some (Return, ec, it3, s)
                             else
                               (case do_field ne buf (make_string buf it it1) it2 lst s of
                                  None \<Rightarrow> None
                                | Some (ec', s') \<Rightarrow>
                                    if ec' \<noteq> None then Some (Return, ec', it3, s')
                                    else Some (Again, None, it3,
                                           s'\<lparr>calls := calls s' @
                                              [on_field (make_string buf it it1)
                                                 (make_string buf it2 lst)]\<rparr>))))))"

lemma parse_fields_step_Again:
  assumes a: "parse_fields_step ne buf it s = Some (Again, ec, it', s')"
  shows "it < it' \<and> it < length buf"
proof (cases "rd buf it")
  case None
  with a show ?thesis by (simp add: parse_fields_step_def)
next
  case c: (Some c)
  then have lt: "it < length buf" by (simp add: rd_def split: if_splits)
  show ?thesis
  proof (cases "c = CR")
    case True
    with a c show ?thesis
      by (cases "rd buf (it + 1)") (simp_all add: parse_fields_step_def split: if_splits)
  next
    case ncr: False
    show ?thesis
    proof (cases "field_name_loop buf it")
      case None
      with a c ncr show ?thesis by (simp add: parse_fields_step_def)
    next
      case (Some r1)
      then obtain ok it1 where n: "field_name_loop buf it = Some (ok, it1)"
        by (cases r1) simp
      show ?thesis
      proof (cases ok)
        case False
        with a c ncr n show ?thesis by (simp add: parse_fields_step_def)
      next
        case ok: True
        show ?thesis
        proof (cases "scan_while (\<lambda>c. c = SP \<or> c = HT) buf (it1 + 1)")
          case None
          with a c ncr n ok show ?thesis by (simp add: parse_fields_step_def)
        next
          case w: (Some it2)
          show ?thesis
          proof (cases "field_value_loop buf it2 it2")
            case None
            with a c ncr n ok w show ?thesis by (simp add: parse_fields_step_def)
          next
            case (Some r3)
            then obtain e it3 lst where v: "field_value_loop buf it2 it2 = Some (e, it3, lst)"
              by (cases r3) auto
            have eq: "it' = it3"
            proof (cases e)
              case (Some x)
              with a c ncr n ok w v show ?thesis by (simp add: parse_fields_step_def)
            next
              case None
              with a c ncr n ok w v show ?thesis
                by (cases "do_field ne buf (make_string buf it it1) it2 lst s")
                   (auto simp: parse_fields_step_def split: if_splits)
            qed
            have "it \<le> it1" using n by (rule field_name_loop_ge)
            moreover have "it1 + 1 \<le> it2" using w by (rule scan_while_ge)
            moreover have "it2 \<le> it3" using v by (rule field_value_loop_ge)
            ultimately show ?thesis using lt eq by simp
          qed
        qed
      qed
    qed
  qed
qed

function parse_fields ::
  "bool \<Rightarrow> string \<Rightarrow> nat \<Rightarrow> parser \<Rightarrow> (error option \<times> nat \<times> parser) option" where
  "parse_fields ne buf it s =
     (case parse_fields_step ne buf it s of
        None \<Rightarrow> None
      | Some (Return, ec, it', s') \<Rightarrow> Some (ec, it', s')
      | Some (Again, ec, it', s') \<Rightarrow> parse_fields ne buf it' s')"
  by pat_completeness auto
termination
proof (relation "measure (\<lambda>(ne, buf, it, s). length buf - it)")
  show "wf (measure (\<lambda>(ne, buf, it, s). length buf - it))" by simp
next
  fix ne buf it s x2 x y xa ya xb yb
  assume "parse_fields_step ne buf it s = Some x2" "(x, y) = x2" "x = Again"
    "(xa, ya) = y" "(xb, yb) = ya"
  then have "parse_fields_step ne buf it s = Some (Again, xa, xb, yb)" by simp
  from parse_fields_step_Again[OF this] have "it < xb \<and> it < length buf" .
  then show "((ne, buf, xb, yb), ne, buf, it, s) \<in> measure (\<lambda>(ne, buf, it, s). length buf - it)"
    by (simp, arith)
qed

declare parse_fields.simps [simp del]

section \<open>The framing layer (impl/new_basic_parser.ipp)\<close>

text \<open>
  \<open>parse_header(p, n, ec)\<close> on the view \<open>buf\<close> of \<open>n = length buf\<close> octets: the number
  returned, the error assigned and the parser after the call. A \<open>BOOST_ASSERT\<close> that
  fails ends the call (\<open>None\<close>).
\<close>

definition parse_header ::
  "bool \<Rightarrow> bool \<Rightarrow> parser \<Rightarrow> string \<Rightarrow> (nat \<times> error option \<times> parser) option" where
  "parse_header isRequest ne s buf =
     (let n = length buf
      in if n < 4 then Some (0, Some need_more, s)
         else
           (case find_2x_crlf buf (unat (skip_m s)) n of
              None \<Rightarrow> Some (0, Some need_more, s\<lparr>skip_m := of_nat (n - 3)\<rparr>)
            | Some t \<Rightarrow>
                (case parse_startline isRequest buf 0 (s\<lparr>skip_m := 0\<rparr>) of
                   None \<Rightarrow> None
                 | Some (ec, p1, s1) \<Rightarrow>
                     if ec \<noteq> None then Some (0, ec, s1)
                     else
                       (case parse_fields ne buf p1 s1 of
                          None \<Rightarrow> None
                        | Some (ec', p2, s2) \<Rightarrow>
                            if ec' \<noteq> None then Some (0, ec', s2)
                            else if p2 \<noteq> t + 4 then None
                            else Some (t + 4, None,
                                   s2\<lparr>calls := calls s2 @ [on_header],
                                      f_m := f_m s2 OR flagHeader\<rparr>)))))"

text \<open>
  \<open>parse_chunked(p, n, ec)\<close>, in three parts. \<open>parse_chunked_final\<close> is the code from the
  search for the doubled CRLF to the end, \<open>parse_chunked_size\<close> the block
  \<open>if(! (f_ & flagFinalChunk))\<close> before it, and \<open>parse_chunked\<close> the block
  \<open>if(f_ & flagExpectCRLF)\<close> at the head. \<open>first\<close> is the index 0 and \<open>last\<close> the
  length of the view; \<open>p\<close> and the local \<open>n\<close> are passed on. After \<open>on_chunk\<close> the
  code sets \<open>p\<close> to \<open>first + x_\<close>, also where that lies before \<open>p\<close>.
\<close>

definition parse_chunked_final ::
  "bool \<Rightarrow> parser \<Rightarrow> string \<Rightarrow> nat \<Rightarrow> nat \<Rightarrow> (nat \<times> error option \<times> parser) option" where
  "parse_chunked_final ne s buf p n =
     (case find_2x_crlf buf (unat (skip_m s)) (length buf) of
        None \<Rightarrow>
          Some (0, Some need_more,
            if n > 3 then s\<lparr>skip_m := of_nat (length buf - 3)\<rparr> else s)
      | Some t \<Rightarrow>
          (case (if f_m s AND flagFinalChunk \<noteq> 0
                 then (case parse_hex 64 buf p of
                         None \<Rightarrow> None
                       | Some (result, v, p') \<Rightarrow>
                           if result \<and> v = 0 then Some (p', s) else None)
                 else Some (p, s\<lparr>f_m := f_m s OR flagFinalChunk\<rparr>)) of
             None \<Rightarrow> None
           | Some (p1, s1) \<Rightarrow>
               (case rd buf p1 of
                  None \<Rightarrow> None
                | Some c \<Rightarrow>
                    let p2 = (if c = CHR '';'' then unat (x_m s1) else p1);
                        s2 = (if c = CHR '';''
                              then s1\<lparr>calls := calls s1 @
                                     [on_chunk 0 (make_string buf p1 (unat (x_m s1)))]\<rparr>
                              else s1)
                    in (case parse_crlf buf p2 of
                          None \<Rightarrow> None
                        | Some (ok, p3) \<Rightarrow>
                            if \<not> ok then Some (0, Some bad_chunk, s2)
                            else
                              (case parse_fields ne buf p3 s2 of
                                 None \<Rightarrow> None
                               | Some (ec, p4, s3) \<Rightarrow>
                                   if ec \<noteq> None then Some (0, ec, s3)
                                   else if p4 \<noteq> t + 4 then None
                                   else Some (p4, None,
                                          s3\<lparr>f_m := f_m s3 OR flagDone\<rparr>))))))"

definition parse_chunked_size ::
  "bool \<Rightarrow> parser \<Rightarrow> string \<Rightarrow> nat \<Rightarrow> nat \<Rightarrow> (nat \<times> error option \<times> parser) option" where
  "parse_chunked_size ne s buf p n =
     (if f_m s AND flagFinalChunk = 0 then
        (if n < 2 then Some (0, Some need_more, s)
         else
           (case find_crlf buf (p + unat (skip_m s)) (length buf) of
              None \<Rightarrow> Some (0, Some need_more, s\<lparr>skip_m := of_nat (n - 1)\<rparr>)
            | Some t \<Rightarrow>
                (case parse_hex 64 buf p of
                   None \<Rightarrow> None
                 | Some (ok, v, p1) \<Rightarrow>
                     if \<not> ok then Some (0, Some bad_chunk, s)
                     else if v \<noteq> 0 then
                       (case rd buf p1 of
                          None \<Rightarrow> None
                        | Some c \<Rightarrow>
                            if c = CHR '';'' then
                              Some (t + 2, None,
                                s\<lparr>calls := calls s @ [on_chunk v (make_string buf p1 t)],
                                  len_m := of_nat v, skip_m := 0,
                                  f_m := f_m s OR flagExpectCRLF\<rparr>)
                            else if p1 \<noteq> t then Some (0, Some bad_chunk, s)
                            else
                              Some (t + 2, None,
                                s\<lparr>len_m := of_nat v, skip_m := 0,
                                  f_m := f_m s OR flagExpectCRLF\<rparr>))
                     else
                       parse_chunked_final ne (s\<lparr>x_m := of_nat t, skip_m := of_nat t\<rparr>)
                         buf p1 n)))
      else parse_chunked_final ne s buf p n)"

definition parse_chunked ::
  "bool \<Rightarrow> parser \<Rightarrow> string \<Rightarrow> (nat \<times> error option \<times> parser) option" where
  "parse_chunked ne s buf =
     (let n = length buf
      in if f_m s AND flagExpectCRLF \<noteq> 0 then
           (if n < 2 then Some (0, Some need_more, s)
            else
              (case parse_crlf buf 0 of
                 None \<Rightarrow> None
               | Some (ok, p) \<Rightarrow>
                   if \<not> ok then Some (0, Some bad_chunk, s)
                   else parse_chunked_size ne s buf p (n - 2)))
         else parse_chunked_size ne s buf 0 n)"

text \<open>
  \<open>maybe_flatten(buffers)\<close>: the parser after the call and the view returned. A
  buffer sequence is the list of its octet ranges. The array that \<open>new char[len]\<close>
  allocates is not initialised; the copy that follows overwrites all of it.
  \<open>buffer_copy\<close> copies as many octets as source and target both hold.
\<close>

definition maybe_flatten :: "parser \<Rightarrow> string list \<Rightarrow> parser \<times> string" where
  "maybe_flatten s buffers =
     (case buffers of
        [] \<Rightarrow> (s, [])
      | [b] \<Rightarrow> (s, b)
      | _ \<Rightarrow>
          let len = length (concat buffers);
              s1 = (if len > buf_len_m s
                    then s\<lparr>buf_m := replicate len (CHR 0x00), buf_len_m := len\<rparr>
                    else s);
              k = min (buf_len_m s1) len;
              s2 = s1\<lparr>buf_m := take k (concat buffers) @ drop k (buf_m s1)\<rparr>
          in (s2, take (buf_len_m s2) (buf_m s2)))"

text \<open>\<open>write(buffers, ec)\<close>; \<open>write\<close> is a keyword of Isabelle, so the name is \<open>write_bufs\<close>.\<close>

definition write_bufs ::
  "bool \<Rightarrow> bool \<Rightarrow> parser \<Rightarrow> string list \<Rightarrow> (nat \<times> error option \<times> parser) option" where
  "write_bufs isRequest ne s buffers =
     (if f_m s AND flagHeader = 0 then
        (let (s1, v) = maybe_flatten s buffers in parse_header isRequest ne s1 v)
      else if f_m s AND flagChunked \<noteq> 0 then
        (let (s1, v) = maybe_flatten s buffers in parse_chunked ne s1 v)
      else Some (0, None, s))"

text \<open>\<open>write_eof(ec)\<close>: the error assigned and the parser after the call.\<close>

definition write_eof :: "parser \<Rightarrow> error option \<times> parser" where
  "write_eof s =
     (if f_m s AND (flagContentLength OR flagChunked) \<noteq> 0 then
        (if f_m s AND flagDone = 0 then (Some short_read, s) else (None, s))
      else (None, s\<lparr>f_m := f_m s OR flagDone\<rparr>))"

text \<open>
  \<open>write_body\<close> is a template over the \<open>Reader\<close>; the reader of the repository is
  \<open>str_body::reader\<close> of the test suite (new_parser.cpp), with the members \<open>len_\<close>
  and \<open>body_\<close>. \<open>prepare(n)\<close> resizes the body to \<open>len_ + n\<close> octets and returns the
  last \<open>n\<close> of them as the buffer; \<open>reader_put\<close> is the copy of octets into that
  buffer; \<open>commit(n)\<close> cuts the body to \<open>len_ + n\<close> and sets \<open>len_\<close> to its size. None
  of them assigns \<open>ec\<close>. \<open>init\<close> reserves memory only.
\<close>

record reader =
  r_len :: nat
  body :: string

definition reader_prepare :: "reader \<Rightarrow> nat \<Rightarrow> reader" where
  "reader_prepare r n =
     r\<lparr>body := take (r_len r + n) (body r) @
                replicate (r_len r + n - length (body r)) (CHR 0x00)\<rparr>"

definition reader_put :: "reader \<Rightarrow> string \<Rightarrow> reader" where
  "reader_put r xs =
     r\<lparr>body := take (r_len r) (body r) @ xs @ drop (r_len r + length xs) (body r)\<rparr>"

definition reader_commit :: "reader \<Rightarrow> nat \<Rightarrow> reader" where
  "reader_commit r n =
     (let b = (if length (body r) > r_len r + n then take (r_len r + n) (body r) else body r)
      in r\<lparr>body := b, r_len := length b\<rparr>)"

definition reader_finish :: "reader \<Rightarrow> reader" where
  "reader_finish r = r\<lparr>body := take (r_len r) (body r)\<rparr>"

text \<open>
  Modelled from the spec: \<open>beast::detail::clamp\<close> (clamp.hpp is not among the sources),
  the spec's \<open>min(len, buffer.size())\<close>.
\<close>

definition clamp :: "64 word \<Rightarrow> nat \<Rightarrow> nat" where
  "clamp x limit = min (unat x) limit"

text \<open>
  \<open>write_body(r, dynabuf, ec)\<close> with this reader; the dynamic buffer is the string of
  its readable octets.
\<close>

definition write_body :: "parser \<Rightarrow> reader \<Rightarrow> string \<Rightarrow> parser \<times> reader \<times> string" where
  "write_body s r dynabuf =
     (let n = clamp (len_m s) (length dynabuf);
          r' = reader_commit (reader_put (reader_prepare r n) (take n dynabuf)) n;
          s' = (if f_m s AND flagContentLength \<noteq> 0 then
                  (let l = len_m s - of_nat n
                   in s\<lparr>len_m := l, f_m := (if l = 0 then f_m s OR flagDone else f_m s)\<rparr>)
                else if f_m s AND flagChunked \<noteq> 0 then s\<lparr>len_m := len_m s - of_nat n\<rparr>
                else s)
      in (s', r', drop n dynabuf))"

section \<open>Evaluation on concrete inputs\<close>

text \<open>
  The defining equations of the model, for the simplifier to run the parser on a
  concrete view.
\<close>

lemmas ev =
  rd_def make_string_def is_pathchar_def is_value_char_def is_text_def unhex_tab_def unhex_def
  is_digit_def digit_val_def parse_dec_loop.simps parse_dec_def parse_hex_loop.simps parse_hex_def
  parse_crlf_def scan_while.simps parse_as_def parse_version_def parse_status_def
  parse_reason_loop.simps parse_reason_def find_crlf_def find_2x_crlf_def
  flag_defs new_parser_def is_tchar_def to_field_char_def to_lower_def ci_equal_def
  is_ows_def trim_ows_def token_list_def find_if_def next_ne_end_def do_field_def
  parse_startline_request_def parse_startline_response_def parse_startline_def
  field_value_crlf_def field_value_loop.simps field_name_loop.simps parse_fields_step_def
  parse_fields.simps parse_header_def parse_chunked_final_def parse_chunked_size_def
  parse_chunked_def maybe_flatten_def write_bufs_def write_eof_def CRLF_def Let_def




section \<open>End of stream\<close>

lemma flag_or_absorb: "(f :: 8 word) AND flagDone \<noteq> 0 \<Longrightarrow> f OR flagDone = f"
proof -
  assume a: "f AND flagDone \<noteq> 0"
  have e: "flagDone = (2 :: 8 word) ^ 4" "flagDone = (push_bit 4 1 :: 8 word)"
    by (simp_all add: flagDone_def)
  from a have "bit f 4"
    using and_exp_eq_0_iff_not_bit [of f 4] by (simp only: e(1)) blast
  then have "set_bit 4 f = f"
    by (simp add: set_bit_eq_idem_iff)
  then show ?thesis
    by (simp only: e(2) set_bit_eq_or)
qed

lemma write_eof_by_flags:
  "(fst (write_eof s) = Some short_read \<longleftrightarrow>
      (content_length s \<noteq> None \<or> is_chunked s) \<and> \<not> is_done s) \<and>
   (fst (write_eof s) \<noteq> Some short_read \<longrightarrow>
      fst (write_eof s) = None \<and> is_done (snd (write_eof s)) \<and>
      snd (write_eof s) = s\<lparr>f_m := f_m s OR flagDone\<rparr>)"
proof -
  have fr: "(f_m s AND (flagContentLength OR flagChunked) \<noteq> 0) =
            (content_length s \<noteq> None \<or> is_chunked s)"
    by (auto simp: content_length_def is_chunked_def word_ao_dist2 word_bw_comms or_eq_0_iff)
  have d: "is_done (s\<lparr>f_m := f_m s OR flagDone\<rparr>)"
    by (simp add: is_done_def flagDone_def word_ao_absorbs word_bw_comms)
  show ?thesis
  proof (cases "f_m s AND (flagContentLength OR flagChunked) \<noteq> 0")
    case True
    show ?thesis
    proof (cases "is_done s")
      case True
      then have "f_m s OR flagDone = f_m s"
        by (simp add: is_done_def flag_or_absorb)
      with True \<open>f_m s AND (flagContentLength OR flagChunked) \<noteq> 0\<close> fr show ?thesis
        by (simp add: write_eof_def is_done_def)
    next
      case False
      with True fr show ?thesis by (simp add: write_eof_def is_done_def)
    qed
  next
    case False
    with fr d show ?thesis by (simp add: write_eof_def)
  qed
qed

text \<open>
  The states of a parser in use: a new parser, and the state after a call of \<open>write\<close>
  that has assigned no error or \<open>need_more\<close>, after \<open>write_eof\<close>, after \<open>consume\<close> and
  after \<open>write_body\<close>. A call of \<open>write\<close> that assigns another error ends the use of the
  parser.
\<close>

inductive reachable :: "bool \<Rightarrow> bool \<Rightarrow> parser \<Rightarrow> bool" for isRequest :: bool and ne :: bool where
  reach_new: "reachable isRequest ne (new_parser x0)"
| reach_write: "reachable isRequest ne s \<Longrightarrow> write_bufs isRequest ne s buffers = Some (n, ec, s') \<Longrightarrow>
     ec = None \<or> ec = Some need_more \<Longrightarrow> reachable isRequest ne s'"
| reach_eof: "reachable isRequest ne s \<Longrightarrow> reachable isRequest ne (snd (write_eof s))"
| reach_consume: "reachable isRequest ne s \<Longrightarrow> reachable isRequest ne (consume s n)"
| reach_body: "reachable isRequest ne s \<Longrightarrow> reachable isRequest ne (fst (write_body s r dynabuf))"

lemma hdr_bit: "((f :: 8 word) AND flagHeader \<noteq> 0) = bit f 3"
  using and_exp_eq_0_iff_not_bit [of f 3] by (simp add: flagHeader_def)

lemma cl_bit: "((f :: 8 word) AND flagContentLength \<noteq> 0) = bit f 0"
  using and_exp_eq_0_iff_not_bit [of f 0] by (simp add: flagContentLength_def)

lemma ch_bit: "((f :: 8 word) AND flagChunked \<noteq> 0) = bit f 1"
  using and_exp_eq_0_iff_not_bit [of f 1] by (simp add: flagChunked_def)

lemma fr_bit: "((f :: 8 word) AND (flagContentLength OR flagChunked) \<noteq> 0) = (bit f 0 \<or> bit f 1)"
  using cl_bit [of f] ch_bit [of f] by (auto simp: word_ao_dist2 or_eq_0_iff)


lemma hdr_bit0: "((f :: 8 word) AND flagHeader = 0) = (\<not> bit f 3)"
  using hdr_bit [of f] by blast

lemma cl_bit0: "((f :: 8 word) AND flagContentLength = 0) = (\<not> bit f 0)"
  using cl_bit [of f] by blast

lemma ch_bit0: "((f :: 8 word) AND flagChunked = 0) = (\<not> bit f 1)"
  using ch_bit [of f] by blast

lemmas flag_bit = hdr_bit hdr_bit0 cl_bit cl_bit0 ch_bit ch_bit0

lemma do_field_flags:
  assumes "do_field ne buf name vf vl s = Some (ec, s')"
  shows "ec \<noteq> Some need_more \<and> (bit (f_m s) 3 \<longrightarrow> bit (f_m s') 3)"
  using assms
  by (auto simp: do_field_def Let_def bit_or_iff split: if_splits option.splits prod.splits)

lemma field_value_loop_ec:
  "field_value_loop buf it lst = Some (ec, it', lst') \<Longrightarrow> ec \<noteq> Some need_more"
proof (induction "length buf - it" arbitrary: it lst rule: less_induct)
  case less
  show ?case
  proof (cases "field_value_crlf buf it")
    case None
    with less.prems show ?thesis by (subst (asm) field_value_loop.simps) simp
  next
    case (Some r)
    then obtain e brk q where c: "field_value_crlf buf it = Some (e, brk, q)"
      by (cases r) auto
    from c have e: "e \<noteq> Some need_more"
      by (auto simp: field_value_crlf_def split: option.splits if_splits)
    from c have q: "it \<le> q" by (rule field_value_crlf_ge)
    show ?thesis
    proof (cases "e \<noteq> None \<or> brk")
      case True
      with less.prems c e show ?thesis
        by (subst (asm) field_value_loop.simps) (auto split: if_splits)
    next
      case False
      show ?thesis
      proof (cases "rd buf q")
        case None
        with less.prems c False show ?thesis
          by (subst (asm) field_value_loop.simps) simp
      next
        case (Some ch)
        then have "q < length buf" by (simp add: rd_def split: if_splits)
        with q have m: "length buf - (q + 1) < length buf - it" by arith
        from less.prems c False Some
        have "(\<exists>l. field_value_loop buf (q + 1) l = Some (ec, it', lst')) \<or> ec = Some bad_value"
          by (subst (asm) field_value_loop.simps) (auto split: if_splits)
        then show ?thesis
        proof
          assume "\<exists>l. field_value_loop buf (q + 1) l = Some (ec, it', lst')"
          then obtain l where "field_value_loop buf (q + 1) l = Some (ec, it', lst')" ..
          from less.hyps [OF m this] show ?thesis .
        next
          assume "ec = Some bad_value"
          then show ?thesis by simp
        qed
      qed
    qed
  qed
qed

lemma parse_fields_step_flags:
  assumes "parse_fields_step ne buf it s = Some (st, ec, it', s')"
  shows "ec \<noteq> Some need_more \<and> (bit (f_m s) 3 \<longrightarrow> bit (f_m s') 3)"
  using assms
  by (auto simp: parse_fields_step_def split: option.splits if_splits prod.splits
           dest: do_field_flags field_value_loop_ec)

lemma parse_fields_flags:
  "parse_fields ne buf it s = Some (ec, it', s') \<Longrightarrow>
     ec \<noteq> Some need_more \<and> (bit (f_m s) 3 \<longrightarrow> bit (f_m s') 3)"
proof (induction ne buf it s rule: parse_fields.induct)
  case (1 ne buf it s)
  show ?case
  proof (cases "parse_fields_step ne buf it s")
    case None
    with "1.prems" show ?thesis by (subst (asm) parse_fields.simps) simp
  next
    case (Some r)
    then obtain st e it1 s1 where r: "parse_fields_step ne buf it s = Some (st, e, it1, s1)"
      by (cases r) auto
    note f = parse_fields_step_flags [OF r]
    show ?thesis
    proof (cases st)
      case Return
      with "1.prems" r f show ?thesis by (subst (asm) parse_fields.simps) simp
    next
      case Again
      with "1.prems" r have rec: "parse_fields ne buf it1 s1 = Some (ec, it', s')"
        by (subst (asm) parse_fields.simps) simp
      from "1.IH" [OF r refl _ refl refl rec] Again f show ?thesis by simp
    qed
  qed
qed

lemma parse_startline_flags:
  assumes "parse_startline isRequest buf it s = Some (ec, it', s')"
  shows "ec \<noteq> Some need_more \<and> f_m s' = f_m s"
  using assms
  by (auto simp: parse_startline_def parse_startline_request_def parse_startline_response_def
           split: option.splits if_splits prod.splits)


text \<open>A framing flag is set only in a parser that has completed the header.\<close>

definition framed_after_header :: "parser \<Rightarrow> bool" where
  "framed_after_header s = (bit (f_m s) 3 \<or> \<not> (bit (f_m s) 0 \<or> bit (f_m s) 1))"

lemma parse_header_framed:
  assumes "parse_header isRequest ne s buf = Some (n, ec, s')"
    and "ec = None \<or> ec = Some need_more" and "framed_after_header s"
  shows "framed_after_header s'"
proof (cases "length buf < 4")
  case True
  with assms show ?thesis by (simp add: parse_header_def)
next
  case n4: False
  show ?thesis
  proof (cases "find_2x_crlf buf (unat (skip_m s)) (length buf)")
    case None
    with assms n4 show ?thesis
      by (auto simp: parse_header_def framed_after_header_def)
  next
    case (Some t)
    show ?thesis
    proof (cases "parse_startline isRequest buf 0 (s\<lparr>skip_m := 0\<rparr>)")
      case None
      with assms n4 Some show ?thesis by (simp add: parse_header_def)
    next
      case sl: (Some r)
      then obtain e1 p1 s1 where
        r: "parse_startline isRequest buf 0 (s\<lparr>skip_m := 0\<rparr>) = Some (e1, p1, s1)"
        by (cases r) auto
      note f1 = parse_startline_flags [OF r]
      show ?thesis
      proof (cases "e1 = None")
        case False
        with assms n4 Some r f1 show ?thesis by (auto simp: parse_header_def)
      next
        case e1: True
        show ?thesis
        proof (cases "parse_fields ne buf p1 s1")
          case None
          with assms n4 Some r e1 show ?thesis by (simp add: parse_header_def)
        next
          case pf: (Some r2)
          then obtain e2 p2 s2 where
            r2: "parse_fields ne buf p1 s1 = Some (e2, p2, s2)" by (cases r2) auto
          note f2 = parse_fields_flags [OF r2]
          show ?thesis
          proof (cases "e2 = None")
            case False
            with assms n4 Some r e1 r2 f2 show ?thesis by (auto simp: parse_header_def)
          next
            case True
            with assms n4 Some r e1 r2 show ?thesis
              by (auto simp: parse_header_def framed_after_header_def bit_or_iff flagHeader_def
                       split: if_splits)
          qed
        qed
      qed
    qed
  qed
qed

lemma parse_chunked_final_hdr:
  assumes "parse_chunked_final ne s buf p n = Some (k, ec, s')" and "bit (f_m s) 3"
  shows "bit (f_m s') 3"
  using assms
  by (auto simp: parse_chunked_final_def Let_def bit_or_iff
           split: option.splits if_splits prod.splits dest!: parse_fields_flags)

lemma parse_chunked_size_hdr:
  assumes "parse_chunked_size ne s buf p n = Some (k, ec, s')" and "bit (f_m s) 3"
  shows "bit (f_m s') 3"
  using assms
  by (auto simp: parse_chunked_size_def bit_or_iff
           split: option.splits if_splits prod.splits dest!: parse_chunked_final_hdr)

lemma parse_chunked_hdr:
  assumes "parse_chunked ne s buf = Some (k, ec, s')" and "bit (f_m s) 3"
  shows "bit (f_m s') 3"
  using assms
  by (auto simp: parse_chunked_def Let_def
           split: option.splits if_splits prod.splits dest!: parse_chunked_size_hdr)

lemma maybe_flatten_flags: "f_m (fst (maybe_flatten s buffers)) = f_m s"
  by (simp add: maybe_flatten_def Let_def split: list.splits)

lemma write_bufs_framed:
  assumes "write_bufs isRequest ne s buffers = Some (n, ec, s')"
    and "ec = None \<or> ec = Some need_more" and "framed_after_header s"
  shows "framed_after_header s'"
proof (cases "bit (f_m s) 3")
  case False
  obtain s1 v where m: "maybe_flatten s buffers = (s1, v)" by (cases "maybe_flatten s buffers")
  with maybe_flatten_flags [of s buffers] have "f_m s1 = f_m s" by simp
  with assms(3) have "framed_after_header s1" by (simp add: framed_after_header_def)
  moreover from assms(1) False m have "parse_header isRequest ne s1 v = Some (n, ec, s')"
    by (simp add: write_bufs_def flag_bit)
  ultimately show ?thesis using assms(2) by (blast intro: parse_header_framed)
next
  case True
  show ?thesis
  proof (cases "bit (f_m s) 1")
    case False
    with True assms show ?thesis by (auto simp: write_bufs_def flag_bit)
  next
    case ch: True
    obtain s1 v where m: "maybe_flatten s buffers = (s1, v)" by (cases "maybe_flatten s buffers")
    with maybe_flatten_flags [of s buffers] True have h: "bit (f_m s1) 3" by simp
    from assms(1) True ch m have "parse_chunked ne s1 v = Some (n, ec, s')"
      by (simp add: write_bufs_def flag_bit)
    from parse_chunked_hdr [OF this h] show ?thesis by (simp add: framed_after_header_def)
  qed
qed

lemma write_eof_framed: "framed_after_header s \<Longrightarrow> framed_after_header (snd (write_eof s))"
  by (auto simp: write_eof_def framed_after_header_def bit_or_iff flagDone_def)

lemma consume_framed: "framed_after_header s \<Longrightarrow> framed_after_header (consume s n)"
  by (simp add: consume_def framed_after_header_def)

lemma write_body_framed:
  "framed_after_header s \<Longrightarrow> framed_after_header (fst (write_body s r dynabuf))"
  by (auto simp: write_body_def Let_def framed_after_header_def bit_or_iff flagDone_def)

lemma reachable_framed: "reachable isRequest ne s \<Longrightarrow> framed_after_header s"
proof (induction rule: reachable.induct)
  case (reach_new x0)
  show ?case by (simp add: framed_after_header_def new_parser_def)
next
  case (reach_write s buffers n ec s')
  from write_bufs_framed [OF reach_write.hyps(2,3) reach_write.IH] show ?case .
next
  case (reach_eof s)
  then show ?case by (simp add: write_eof_framed)
next
  case (reach_consume s n)
  then show ?case by (simp add: consume_framed)
next
  case (reach_body s r dynabuf)
  then show ?case by (simp add: write_body_framed)
qed

text \<open>
  Claim C3. In every state of a parser in use, \<open>write_eof\<close> assigns \<open>short_read\<close>
  exactly when the header is complete, a framing flag (\<open>flagContentLength\<close> or
  \<open>flagChunked\<close>) is set and \<open>flagDone\<close> is not; in every other such state it assigns
  no error, and \<open>flagDone\<close> is set after the call, the parser being otherwise unchanged.
\<close>

theorem write_eof_short_read_iff:
  assumes "reachable isRequest ne s"
  shows "(fst (write_eof s) = Some short_read \<longleftrightarrow>
            have_header s \<and> (content_length s \<noteq> None \<or> is_chunked s) \<and> \<not> is_done s) \<and>
         (fst (write_eof s) \<noteq> Some short_read \<longrightarrow>
            fst (write_eof s) = None \<and> is_done (snd (write_eof s)) \<and>
            snd (write_eof s) = s\<lparr>f_m := f_m s OR flagDone\<rparr>)"
proof -
  from reachable_framed [OF assms]
  have "content_length s \<noteq> None \<or> is_chunked s \<Longrightarrow> have_header s"
    by (auto simp: framed_after_header_def content_length_def is_chunked_def have_header_def
          flag_bit)
  with write_eof_by_flags [of s] show ?thesis by blast
qed

definition length_header :: parser where
  "length_header = (new_parser 0)\<lparr>len_m := 5, f_m := 9,
     calls := [on_request ''GET'' ''/'' 11, on_field ''Content-Length'' ''5'', on_header]\<rparr>"

lemma length_header_reached:
  "write_bufs True False (new_parser 0)
     [''GET / HTTP/1.1'' @ CRLF @ ''Content-Length: 5'' @ CRLF @ CRLF]
   = Some (37, None, length_header)"
  by (simp add: ev length_header_def)

definition plain_header :: parser where
  "plain_header = (new_parser 0)\<lparr>f_m := 8, calls := [on_request ''GET'' ''/'' 11, on_header]\<rparr>"

lemma plain_header_reached:
  "write_bufs True False (new_parser 0) [''GET / HTTP/1.1'' @ CRLF @ CRLF]
   = Some (18, None, plain_header)"
  by (simp add: ev plain_header_def)

theorem write_eof_short_read_iff_witness:
  "fst (write_eof length_header) = Some short_read \<and>
   fst (write_eof plain_header) = None \<and> is_done (snd (write_eof plain_header)) \<and>
   fst (write_eof (new_parser 0)) = None \<and> is_done (snd (write_eof (new_parser 0)))"
proof -
  have n: "reachable True False (new_parser 0)" by (rule reach_new)
  have a: "reachable True False length_header"
    by (rule reach_write [OF n length_header_reached]) simp
  have b: "reachable True False plain_header"
    by (rule reach_write [OF n plain_header_reached]) simp
  from write_eof_short_read_iff [OF a] write_eof_short_read_iff [OF b]
    write_eof_short_read_iff [OF n]
  show ?thesis
    by (simp add: length_header_def plain_header_def have_header_def content_length_def
          is_chunked_def is_done_def new_parser_def flag_defs)
qed

text \<open>
  The hypothesis is needed. A request whose second Content-Length field is refused
  leaves \<open>flagContentLength\<close> set and the header not completed; that call of \<open>write\<close> has
  assigned \<open>bad_content_length\<close>, which ends the use of the parser. There \<open>write_eof\<close>
  assigns \<open>short_read\<close>: \<open>flagHeader\<close> is not among the flags that it reads.
\<close>

definition eof_early :: parser where
  "eof_early = (new_parser 0)\<lparr>len_m := 5, f_m := flagContentLength,
     calls := [on_request ''GET'' ''/'' 11, on_field ''Content-Length'' ''5'']\<rparr>"

lemma eof_early_reached:
  "write_bufs True ne (new_parser 0)
     [''GET / HTTP/1.1'' @ CRLF @ ''Content-Length: 5'' @ CRLF @ ''Content-Length: 6'' @ CRLF @ CRLF]
   = Some (0, Some bad_content_length, eof_early)"
  by (simp add: ev eof_early_def)

lemma write_eof_after_refused_header:
  "\<not> have_header eof_early \<and> content_length eof_early = Some 5 \<and> \<not> is_done eof_early \<and>
   write_eof eof_early = (Some short_read, eof_early)"
  by (simp add: eof_early_def have_header_def content_length_def is_done_def write_eof_def
        new_parser_def flag_defs)

section \<open>Writing after the message is complete\<close>

text \<open>
  The parser after a complete chunked response: the header, the chunk of one octet, the
  octet taken with \<open>consume\<close>, and the last chunk.
\<close>

definition chunked_header :: parser where
  "chunked_header = (new_parser 0)\<lparr>f_m := 10,
     calls := [on_response 200 ''OK'' 11, on_field ''Transfer-Encoding'' ''chunked'', on_header]\<rparr>"

definition chunked_done :: parser where
  "chunked_done = chunked_header\<lparr>len_m := 0, skip_m := 3, x_m := 3, f_m := 122\<rparr>"

lemma chunked_done_reached:
  "write_bufs False False (new_parser 0)
     [''HTTP/1.1 200 OK'' @ CRLF @ ''Transfer-Encoding: chunked'' @ CRLF @ CRLF]
     = Some (47, None, chunked_header) \<and>
   write_bufs False False chunked_header [''1'' @ CRLF]
     = Some (3, None, chunked_header\<lparr>len_m := 1, f_m := 42\<rparr>) \<and>
   write_bufs False False (consume (chunked_header\<lparr>len_m := 1, f_m := 42\<rparr>) 1)
     [CRLF @ ''0'' @ CRLF @ CRLF] = Some (7, None, chunked_done)"
  by (simp add: ev chunked_done_def chunked_header_def consume_def)

text \<open>
  \<open>write\<close> does not read \<open>flagDone\<close>. After a complete chunked message it enters
  \<open>parse_chunked\<close> again and assigns \<open>need_more\<close> on an empty input; after
  \<open>write_eof\<close> on a new parser, \<open>done()\<close> holds and \<open>write\<close> parses a header, returns
  its length and calls the host.
\<close>

theorem write_after_done_counterexample:
  "is_done chunked_done \<and>
   write_bufs False False chunked_done [] = Some (0, Some need_more, chunked_done) \<and>
   is_done (snd (write_eof (new_parser 0))) \<and>
   write_bufs True False (snd (write_eof (new_parser 0))) [''GET / HTTP/1.1'' @ CRLF @ CRLF] =
     Some (18, None, (new_parser 0)\<lparr>f_m := 24, calls := [on_request ''GET'' ''/'' 11, on_header]\<rparr>)"
  by (simp add: ev chunked_done_def chunked_header_def is_done_def)

text \<open>
  Claim C2, as amended. In every state in which \<open>done()\<close> holds, the header is
  complete and \<open>flagChunked\<close> is clear, \<open>write\<close> with any buffer sequence returns
  zero, assigns no error and leaves the parser as it is (the scratch buffer included,
  the input is not flattened), and calls no callback.
\<close>

theorem write_after_done:
  assumes "is_done s" and "have_header s" and "\<not> is_chunked s"
  shows "write_bufs isRequest ne s buffers = Some (0, None, s)"
  using assms by (simp add: write_bufs_def have_header_def is_chunked_def)

theorem write_after_done_witness:
  "write_bufs False False ((new_parser 0)\<lparr>len_m := 0, f_m := 25\<rparr>) [''more'', ''bytes'']
     = Some (0, None, (new_parser 0)\<lparr>len_m := 0, f_m := 25\<rparr>)"
  by (rule write_after_done)
     (simp_all add: is_done_def have_header_def is_chunked_def new_parser_def flag_defs)

section \<open>The reason phrase of a status line\<close>

text \<open>
  Claim C4. The comment in \<open>parse_startline\<close> gives
  \<open>reason-phrase = *( HTAB / SP / VCHAR / obs-text )\<close>, which the empty phrase
  matches. \<open>parse_reason\<close> returns the empty \<open>string_ref\<close> both for a phrase with an
  octet that is not \<open>is_text\<close> and for the empty phrase, and \<open>parse_startline\<close> assigns
  \<open>bad_reason\<close> when \<open>reason.empty()\<close>: a status line whose CR follows the SP after the
  status code is refused, and \<open>on_response\<close> is not called.
\<close>

theorem empty_reason_refused:
  "parse_reason (''HTTP/1.1 200 '' @ CRLF @ CRLF) 13 = Some ([], 13) \<and>
   parse_crlf (''HTTP/1.1 200 '' @ CRLF @ CRLF) 13 = Some (True, 15) \<and>
   write_bufs False ne (new_parser x0) [''HTTP/1.1 200 '' @ CRLF @ CRLF]
     = Some (0, Some bad_reason, new_parser x0)"
  by (simp add: ev)

text \<open>The same status line with a reason phrase of one character is accepted.\<close>

lemma one_char_reason_accepted:
  "write_bufs False ne (new_parser x0) [''HTTP/1.1 200 K'' @ CRLF @ CRLF]
     = Some (18, None, (new_parser x0)\<lparr>f_m := 8, calls := [on_response 200 ''K'' 11, on_header]\<rparr>)"
  by (simp add: ev)

section \<open>The hexadecimal accumulator\<close>

text \<open>
  Claim C5. The comment in \<open>parse_chunked\<close> gives \<open>last-chunk = 1*("0") [ chunk-ext ] CRLF\<close>.
  \<open>parse_hex\<close> returns \<open>false\<close> when \<open>16 * v + d <= v\<close>, which holds for \<open>v = 0\<close> and
  \<open>d = 0\<close>: the size line \<open>00\<close> is refused with \<open>bad_chunk\<close>. The same test lets an
  overflow pass when the wrapped value is larger than the value before: seventeen
  digits are accepted with a value that is not theirs.
\<close>

theorem hex_zeros_refused:
  "parse_hex 64 (''00'' @ CRLF @ CRLF) 0 = Some (False, 0, 1) \<and>
   write_bufs False ne ((new_parser x0)\<lparr>f_m := flagHeader OR flagChunked\<rparr>) [''00'' @ CRLF @ CRLF]
     = Some (0, Some bad_chunk, (new_parser x0)\<lparr>f_m := flagHeader OR flagChunked\<rparr>) \<and>
   parse_hex 64 (''1FFFFFFFFFFFFFFF0'' @ CRLF) 0 = Some (True, 18446744073709551600, 17)"
  by (simp add: ev)

text \<open>The last chunk with the single digit \<open>0\<close> is accepted.\<close>

lemma hex_zero_accepted:
  "write_bufs False ne ((new_parser x0)\<lparr>f_m := flagHeader OR flagChunked\<rparr>) [''0'' @ CRLF @ CRLF]
     = Some (5, None, (new_parser x0)\<lparr>skip_m := 1, x_m := 1, f_m := 90\<rparr>)"
  by (simp add: ev)

section \<open>Flattening a buffer sequence\<close>

text \<open>
  Claim C9. \<open>maybe_flatten\<close> returns \<open>{buf_, buf_len_}\<close>, the whole scratch array, and
  not the \<open>len\<close> octets it has copied. A first sequence of eight octets allocates the
  array; for a later sequence of three octets the view has eight octets, the three
  copied and the last five of the earlier input.
\<close>

theorem flatten_keeps_old_octets:
  "maybe_flatten (new_parser x0) [''abcdef'', ''gh'']
     = ((new_parser x0)\<lparr>buf_m := ''abcdefgh'', buf_len_m := 8\<rparr>, ''abcdefgh'') \<and>
   maybe_flatten ((new_parser x0)\<lparr>buf_m := ''abcdefgh'', buf_len_m := 8\<rparr>) [''xy'', ''z'']
     = ((new_parser x0)\<lparr>buf_m := ''xyzdefgh'', buf_len_m := 8\<rparr>, ''xyzdefgh'') \<and>
   concat [''xy'', ''z''] = ''xyz''"
  by (simp add: maybe_flatten_def new_parser_def)

section \<open>Transfer-Encoding\<close>

text \<open>
  Claim C7. \<open>do_field\<close> looks for the first token \<open>chunked\<close> and sets \<open>flagChunked\<close>
  unless \<open>std::next(it) != v.end()\<close>; it does not test whether a token was found.
  For \<open>Transfer-Encoding: gzip\<close> the iterator is \<open>v.end()\<close>: if its successor is
  \<open>v.end()\<close> again the parser sets \<open>flagChunked\<close> and \<open>is_chunked()\<close> holds for a
  message that is not chunked, and otherwise the field is refused with
  \<open>bad_transfer_encoding\<close>. Neither is the claim's acceptance without effect.
\<close>

theorem transfer_encoding_without_chunked:
  "token_list ''gzip'' = [''gzip''] \<and>
   write_bufs True ne (new_parser x0)
     [''GET / HTTP/1.1'' @ CRLF @ ''Transfer-Encoding: gzip'' @ CRLF @ CRLF]
     = (if ne
        then Some (0, Some bad_transfer_encoding,
               (new_parser x0)\<lparr>calls := [on_request ''GET'' ''/'' 11]\<rparr>)
        else Some (43, None,
               (new_parser x0)\<lparr>f_m := flagHeader OR flagChunked,
                  calls := [on_request ''GET'' ''/'' 11,
                            on_field ''Transfer-Encoding'' ''gzip'', on_header]\<rparr>))"
  by (simp add: ev)

text \<open>
  The cases of the claim that the code does meet: \<open>chunked\<close> as the last token sets the
  flag, \<open>chunked\<close> before another token is refused, and so is either field after the
  other.
\<close>

lemma transfer_encoding_chunked_cases:
  "write_bufs True ne (new_parser x0)
     [''GET / HTTP/1.1'' @ CRLF @ ''Transfer-Encoding: gzip, chunked'' @ CRLF @ CRLF]
     = Some (52, None,
         (new_parser x0)\<lparr>f_m := flagHeader OR flagChunked,
            calls := [on_request ''GET'' ''/'' 11,
                      on_field ''Transfer-Encoding'' ''gzip, chunked'', on_header]\<rparr>)"
  "write_bufs True ne (new_parser x0)
     [''GET / HTTP/1.1'' @ CRLF @ ''Transfer-Encoding: chunked, gzip'' @ CRLF @ CRLF]
     = Some (0, Some bad_transfer_encoding,
         (new_parser x0)\<lparr>calls := [on_request ''GET'' ''/'' 11]\<rparr>)"
  "write_bufs True ne (new_parser x0)
     [''GET / HTTP/1.1'' @ CRLF @ ''Content-Length: 5'' @ CRLF @
      ''Transfer-Encoding: chunked'' @ CRLF @ CRLF]
     = Some (0, Some bad_transfer_encoding,
         (new_parser x0)\<lparr>len_m := 5, f_m := flagContentLength,
            calls := [on_request ''GET'' ''/'' 11, on_field ''Content-Length'' ''5'']\<rparr>)"
  "write_bufs True ne (new_parser x0)
     [''GET / HTTP/1.1'' @ CRLF @ ''Transfer-Encoding: chunked'' @ CRLF @
      ''Content-Length: 5'' @ CRLF @ CRLF]
     = Some (0, Some bad_content_length,
         (new_parser x0)\<lparr>f_m := flagChunked,
            calls := [on_request ''GET'' ''/'' 11, on_field ''Transfer-Encoding'' ''chunked'']\<rparr>)"
  by (simp_all add: ev)

section \<open>The decimal accumulator\<close>

text \<open>
  The value of a string of digits, and the largest value that \<open>parse_dec\<close> accepts for
  an \<open>Unsigned\<close> of \<open>w\<close> bits: the guard \<open>v > (max - 10) / 10\<close> is tested before each
  digit after the first, whatever the digit is.
\<close>

definition dec_acc :: "nat \<Rightarrow> string \<Rightarrow> nat" where
  "dec_acc v ds = foldl (\<lambda>a c. 10 * a + digit_val c) v ds"

definition dec_value :: "string \<Rightarrow> nat" where
  "dec_value ds = dec_acc 0 ds"

definition dec_limit :: "nat \<Rightarrow> nat" where
  "dec_limit w = 10 * ((2 ^ w - 1 - 10) div 10) + 9"

lemma dec_acc_simps [simp]:
  "dec_acc v [] = v"
  "dec_acc v (c # cs) = dec_acc (10 * v + digit_val c) cs"
  "dec_acc v (cs @ [c]) = 10 * dec_acc v cs + digit_val c"
  by (simp_all add: dec_acc_def)

lemma dec_acc_ge: "v \<le> dec_acc v ds"
proof (induction ds arbitrary: v)
  case Nil
  show ?case by simp
next
  case (Cons c cs)
  have "v \<le> 10 * v + digit_val c" by simp
  also have "\<dots> \<le> dec_acc (10 * v + digit_val c) cs" by (rule Cons.IH)
  finally show ?case by simp
qed

lemma digit_val_le: "is_digit c \<Longrightarrow> digit_val c \<le> 9"
proof (cases "48 \<le> (of_char c :: nat)")
  case False
  then show ?thesis by (simp add: digit_val_def)
next
  case True
  assume "is_digit c"
  then have a: "(int (of_char c) - 48) mod 256 < 10" by (simp add: is_digit_def)
  have n: "(of_char c :: nat) < 256" by simp
  have "(int (of_char c) - 48) mod 256 = int (of_char c) - 48"
    using True n by (intro mod_pos_pos_trivial) linarith+
  with a True show ?thesis by (simp add: digit_val_def)
qed

lemma pow2_ge_16: "4 \<le> w \<Longrightarrow> (16::nat) \<le> 2 ^ w"
proof -
  assume "4 \<le> w"
  then have "(2::nat) ^ 4 \<le> 2 ^ w" by (rule power_increasing) simp
  then show ?thesis by simp
qed

lemma dec_guard_no_overflow:
  assumes "4 \<le> w" and "v \<le> (2 ^ w - 1 - 10) div 10" and "d \<le> 9"
  shows "(10 * v + d) mod 2 ^ w = 10 * v + (d::nat)"
proof -
  from pow2_ge_16 [OF assms(1)] have "(16::nat) \<le> 2 ^ w" .
  moreover have "10 * ((2 ^ w - 1 - 10) div 10) \<le> (2::nat) ^ w - 1 - 10" by simp
  ultimately have "10 * v + d < 2 ^ w" using assms(2,3) by linarith
  then show ?thesis by simp
qed


lemma rd_append_at: "rd (pre @ c # rest) (length pre) = Some c"
  by (simp add: rd_def)

lemma parse_dec_loop_digits:
  assumes "\<forall>c\<in>set rs. is_digit c" and "\<not> is_digit c" and "4 \<le> w"
    and "length pre = it + 1"
  shows "\<exists>v' r. parse_dec_loop w (pre @ rs @ c # rest) it v =
           Some (rs = [] \<or> dec_acc v (butlast rs) \<le> (2 ^ w - 1 - 10) div 10, v', r) \<and>
           (rs = [] \<or> dec_acc v (butlast rs) \<le> (2 ^ w - 1 - 10) div 10 \<longrightarrow>
              v' = dec_acc v rs \<and> r = it + 1 + length rs)"
  using assms
proof (induction rs arbitrary: pre it v)
  case Nil
  from Nil.prems(4) have "rd (pre @ [] @ c # rest) (it + 1) = Some c"
    using rd_append_at [of pre c rest] by simp
  with Nil.prems(2) show ?case
    by (subst parse_dec_loop.simps) simp
next
  case (Cons d ds)
  let ?L = "(2 ^ w - 1 - 10) div 10"
  from Cons.prems(4) have rd: "rd (pre @ (d # ds) @ c # rest) (it + 1) = Some d"
    using rd_append_at [of pre d "ds @ c # rest"] by simp
  from Cons.prems(1) have dd: "is_digit d" and dds: "\<forall>c\<in>set ds. is_digit c" by simp_all
  show ?case
  proof (cases "v > ?L")
    case True
    have "\<not> dec_acc v (butlast (d # ds)) \<le> ?L"
    proof (cases "ds = []")
      case True
      with \<open>v > ?L\<close> show ?thesis by simp
    next
      case False
      have "v \<le> 10 * v + digit_val d" by simp
      also have "\<dots> \<le> dec_acc (10 * v + digit_val d) (butlast ds)" by (rule dec_acc_ge)
      finally show ?thesis using False \<open>v > ?L\<close> by simp
    qed
    with rd dd True show ?thesis
      by (subst parse_dec_loop.simps) simp
  next
    case False
    then have le: "v \<le> ?L" by simp
    from dec_guard_no_overflow [OF Cons.prems(3) le digit_val_le [OF dd]]
    have m: "(10 * v + digit_val d) mod 2 ^ w = 10 * v + digit_val d" .
    have len: "length (pre @ [d]) = (it + 1) + 1" using Cons.prems(4) by simp
    from Cons.IH [OF dds Cons.prems(2,3) len, of "10 * v + digit_val d"]
    obtain v' r where
      r: "parse_dec_loop w ((pre @ [d]) @ ds @ c # rest) (it + 1) (10 * v + digit_val d) =
            Some (ds = [] \<or> dec_acc (10 * v + digit_val d) (butlast ds) \<le> ?L, v', r)"
      and ok: "ds = [] \<or> dec_acc (10 * v + digit_val d) (butlast ds) \<le> ?L \<longrightarrow>
            v' = dec_acc (10 * v + digit_val d) ds \<and> r = it + 1 + 1 + length ds"
      by blast
    have c: "(ds = [] \<or> dec_acc (10 * v + digit_val d) (butlast ds) \<le> ?L) =
             (dec_acc v (butlast (d # ds)) \<le> ?L)"
      using le by (cases "ds = []") simp_all
    have "parse_dec_loop w (pre @ (d # ds) @ c # rest) it v =
            parse_dec_loop w ((pre @ [d]) @ ds @ c # rest) (it + 1) (10 * v + digit_val d)"
      using rd dd le m by (subst parse_dec_loop.simps) simp
    with r ok c show ?thesis by auto
  qed
qed

lemma dec_limit_64: "dec_limit 64 = 18446744073709551609"
  by (simp add: dec_limit_def)

lemma parse_dec_digits:
  assumes "ds \<noteq> []" and "\<forall>c\<in>set ds. is_digit c" and "\<not> is_digit c" and "4 \<le> w"
  shows "\<exists>v r. parse_dec w (pre @ ds @ c # rest) (length pre) lst =
            Some (dec_value ds \<le> dec_limit w, v, r) \<and>
            (dec_value ds \<le> dec_limit w \<longrightarrow> v = dec_value ds)"
proof -
  from assms(1) obtain d rs where ds: "ds = d # rs" by (cases ds) auto
  let ?L = "(2 ^ w - 1 - 10) div 10"
  from assms(2) ds have dd: "is_digit d" and drs: "\<forall>c\<in>set rs. is_digit c" by simp_all
  have d9: "digit_val d \<le> 9" by (rule digit_val_le [OF dd])
  from pow2_ge_16 [OF assms(4)] d9 have m: "digit_val d mod 2 ^ w = digit_val d" by simp
  have rd: "rd (pre @ ds @ c # rest) (length pre) = Some d"
    using rd_append_at [of pre d "rs @ c # rest"] ds by simp
  have len: "length (pre @ [d]) = length pre + 1" by simp
  from parse_dec_loop_digits [OF drs assms(3,4) len, of rest "digit_val d"]
  obtain v r where
    r: "parse_dec_loop w ((pre @ [d]) @ rs @ c # rest) (length pre) (digit_val d) =
          Some (rs = [] \<or> dec_acc (digit_val d) (butlast rs) \<le> ?L, v, r)"
    and ok: "rs = [] \<or> dec_acc (digit_val d) (butlast rs) \<le> ?L \<longrightarrow>
          v = dec_acc (digit_val d) rs \<and> r = length pre + 1 + length rs"
    by blast
  have val: "dec_value ds = dec_acc (digit_val d) rs" by (simp add: dec_value_def ds)
  have c: "(rs = [] \<or> dec_acc (digit_val d) (butlast rs) \<le> ?L) = (dec_value ds \<le> dec_limit w)"
  proof (cases "rs = []")
    case True
    with d9 show ?thesis by (simp add: val dec_limit_def)
  next
    case False
    then have "rs = butlast rs @ [last rs]" by simp
    then have e: "dec_acc (digit_val d) rs =
                  10 * dec_acc (digit_val d) (butlast rs) + digit_val (last rs)"
      using dec_acc_simps(3) [of "digit_val d" "butlast rs" "last rs"] by simp
    from False drs have "is_digit (last rs)" by simp
    then have "digit_val (last rs) \<le> 9" by (rule digit_val_le)
    with False show ?thesis unfolding val e dec_limit_def by auto
  qed
  have "parse_dec w (pre @ ds @ c # rest) (length pre) lst =
          parse_dec_loop w ((pre @ [d]) @ rs @ c # rest) (length pre) (digit_val d)"
    using rd dd m by (simp add: parse_dec_def ds)
  with r ok c val
  show ?thesis by auto
qed

text \<open>
  The parts of a header field, on a view of which the octets at the place are known:
  the name up to the colon, the run of spaces, and a value that a CRLF without an
  obs-fold ends.
\<close>

lemma is_digit_iff: "is_digit c \<longleftrightarrow> 48 \<le> (of_char c :: nat) \<and> (of_char c :: nat) \<le> 57"
proof -
  have n: "(of_char c :: nat) < 256" by simp
  show ?thesis
  proof (cases "48 \<le> (of_char c :: nat)")
    case True
    have "(int (of_char c) - 48) mod 256 = int (of_char c) - 48"
      using True n by (intro mod_pos_pos_trivial) linarith+
    with True show ?thesis unfolding is_digit_def by linarith
  next
    case False
    have "(int (of_char c) - 48 + 256) mod 256 = int (of_char c) - 48 + 256"
      using False n by (intro mod_pos_pos_trivial) linarith+
    moreover have "(int (of_char c) - 48 + 256) mod 256 = (int (of_char c) - 48) mod 256"
      by (rule mod_add_self2)
    ultimately have "(int (of_char c) - 48) mod 256 = int (of_char c) - 48 + 256" by simp
    with False show ?thesis unfolding is_digit_def by linarith
  qed
qed

lemma digit_value_char: "is_digit c \<Longrightarrow> is_value_char c"
  by (auto simp: is_digit_iff is_value_char_def Let_def)

lemma rd_append_at': "length pre = it \<Longrightarrow> rd (pre @ c # rest) it = Some c"
  by (auto simp: rd_def)

lemma field_name_loop_run:
  assumes "\<forall>c\<in>set nm. to_field_char c \<and> c \<noteq> CHR '':''"
  shows "field_name_loop (pre @ nm @ CHR '':'' # rest) (length pre) = Some (True, length pre + length nm)"
  using assms
proof (induction nm arbitrary: pre)
  case Nil
  show ?case by (subst field_name_loop.simps) (simp add: rd_append_at)
next
  case (Cons c cs)
  have r: "rd (pre @ (c # cs) @ CHR '':'' # rest) (length pre) = Some c"
    using rd_append_at [of pre c "cs @ CHR '':'' # rest"] by simp
  from Cons.prems have cs: "\<forall>c\<in>set cs. to_field_char c \<and> c \<noteq> CHR '':''" by simp
  from Cons.IH [OF cs, of "pre @ [c]"] Cons.prems r show ?case
    by (subst field_name_loop.simps) simp
qed

lemma scan_while_run:
  assumes "\<forall>c\<in>set ws. f c" and "\<not> f e"
  shows "scan_while f (pre @ ws @ e # rest) (length pre) = Some (length pre + length ws)"
  using assms
proof (induction ws arbitrary: pre)
  case Nil
  then show ?case by (subst scan_while.simps) (simp add: rd_append_at)
next
  case (Cons c cs)
  have r: "rd (pre @ (c # cs) @ e # rest) (length pre) = Some c"
    using rd_append_at [of pre c "cs @ e # rest"] by simp
  from Cons.prems have cs: "\<forall>c\<in>set cs. f c" by simp
  from Cons.IH [OF cs Cons.prems(2), of "pre @ [c]"] Cons.prems r show ?case
    by (subst scan_while.simps) simp
qed

lemma not_value_char_CR: "\<not> is_value_char CR"
  by (simp add: is_value_char_def)

lemma rd_append_plus:
  "rd (pre @ xs) (length pre + k) = rd xs k"
  by (simp add: rd_def nth_append)

lemma field_value_loop_run:
  assumes "\<forall>c\<in>set vs. is_value_char c" and "e \<noteq> SP" and "e \<noteq> HT"
  shows "field_value_loop (pre @ vs @ CR # LF # e # rest) (length pre) l =
           Some (None, length pre + length vs + 2, if vs = [] then l else length pre + length vs)"
  using assms
proof (induction vs arbitrary: pre l)
  case Nil
  have "field_value_crlf (pre @ [] @ CR # LF # e # rest) (length pre) =
          Some (None, True, length pre + 2)"
    using rd_append_plus [of pre "CR # LF # e # rest" 0]
      rd_append_plus [of pre "CR # LF # e # rest" 1]
      rd_append_plus [of pre "CR # LF # e # rest" 2] Nil.prems
    by (simp add: field_value_crlf_def rd_def)
  then show ?case by (subst field_value_loop.simps) simp
next
  case (Cons c cs)
  have r: "rd (pre @ (c # cs) @ CR # LF # e # rest) (length pre) = Some c"
    using rd_append_at [of pre c "cs @ CR # LF # e # rest"] by simp
  from Cons.prems have c: "is_value_char c" and cs: "\<forall>c\<in>set cs. is_value_char c" by simp_all
  from c not_value_char_CR have ncr: "c \<noteq> CR" by auto
  from r ncr have crlf: "field_value_crlf (pre @ (c # cs) @ CR # LF # e # rest) (length pre) =
          Some (None, False, length pre)"
    by (simp add: field_value_crlf_def)
  from Cons.IH [OF cs Cons.prems(2,3), of "pre @ [c]" "length pre + 1"] crlf r c show ?case
    by (subst field_value_loop.simps) simp
qed

lemma ci_equal_content_length: "ci_equal ''Content-Length'' ''Content-Length''"
  by (simp add: ci_equal_def)

lemma do_field_content_length:
  assumes "ds \<noteq> []" and "\<forall>c\<in>set ds. is_digit c" and "\<not> is_digit c"
    and "ci_equal name ''Content-Length''"
    and "f_m s AND flagContentLength = 0" and "f_m s AND flagChunked = 0"
  shows "do_field ne (pre @ ds @ c # rest) name (length pre) lst s =
           Some (if dec_value ds \<le> 18446744073709551609
                 then (None, s\<lparr>len_m := of_nat (dec_value ds), f_m := f_m s OR flagContentLength\<rparr>)
                 else (Some bad_content_length, s))"
proof -
  from parse_dec_digits [OF assms(1-3), of 64 pre rest lst] obtain v r where
    p: "parse_dec 64 (pre @ ds @ c # rest) (length pre) lst =
          Some (dec_value ds \<le> dec_limit 64, v, r)"
    and v: "dec_value ds \<le> dec_limit 64 \<longrightarrow> v = dec_value ds"
    by auto
  from p v assms(4-6) show ?thesis
    by (auto simp: do_field_def dec_limit_64)
qed


lemma content_length_name:
  "\<forall>c\<in>set ''Content-Length''. to_field_char c \<and> c \<noteq> CHR '':''"
  by (simp add: to_field_char_def is_tchar_def)

lemma make_string_mid: "make_string (pre @ xs @ rest) (length pre) (length pre + length xs) = xs"
  by (simp add: make_string_def)

lemma ci_equal_refl: "ci_equal a a"
  by (simp add: ci_equal_def)

lemma field_name_loop_at:
  assumes "buf = pre @ nm @ CHR '':'' # rest" and "it = length pre" and "it' = it + length nm"
    and "\<forall>c\<in>set nm. to_field_char c \<and> c \<noteq> CHR '':''"
  shows "field_name_loop buf it = Some (True, it')"
  using field_name_loop_run [OF assms(4), of pre rest] assms(1-3) by simp

lemma scan_while_at:
  assumes "buf = pre @ ws @ e # rest" and "it = length pre" and "it' = it + length ws"
    and "\<forall>c\<in>set ws. f c" and "\<not> f e"
  shows "scan_while f buf it = Some it'"
  using scan_while_run [OF assms(4,5), of pre rest] assms(1-3) by simp

lemma field_value_loop_at:
  assumes "buf = pre @ vs @ CR # LF # e # rest" and "it = length pre" and "vs \<noteq> []"
    and "it' = it + length vs + 2" and "l' = it + length vs"
    and "\<forall>c\<in>set vs. is_value_char c" and "e \<noteq> SP" and "e \<noteq> HT"
  shows "field_value_loop buf it l = Some (None, it', l')"
  using field_value_loop_run [OF assms(6-8), of pre rest l] assms(1-5) by simp

lemma make_string_at:
  assumes "buf = pre @ xs @ rest" and "it = length pre" and "it' = it + length xs"
  shows "make_string buf it it' = xs"
  using assms by (simp add: make_string_def)

lemma do_field_content_length_at:
  assumes "buf = pre @ ds @ c # rest" and "it = length pre"
    and "ds \<noteq> []" and "\<forall>c\<in>set ds. is_digit c" and "\<not> is_digit c"
    and "ci_equal name ''Content-Length''"
    and "f_m s AND flagContentLength = 0" and "f_m s AND flagChunked = 0"
  shows "do_field ne buf name it lst s =
           Some (if dec_value ds \<le> 18446744073709551609
                 then (None, s\<lparr>len_m := of_nat (dec_value ds), f_m := f_m s OR flagContentLength\<rparr>)
                 else (Some bad_content_length, s))"
  using do_field_content_length [OF assms(3-8), of ne pre rest lst] assms(1,2) by simp

lemma content_length_step:
  assumes ds: "ds \<noteq> []" "\<forall>c\<in>set ds. is_digit c"
    and e: "e \<noteq> SP" "e \<noteq> HT"
    and s: "f_m s AND flagContentLength = 0" "f_m s AND flagChunked = 0"
    and it: "it = length pre"
  shows "parse_fields_step ne (pre @ ''Content-Length: '' @ ds @ CR # LF # e # rest) it s =
           Some (if dec_value ds \<le> 18446744073709551609
                 then (Again, None, it + length ds + 18,
                       s\<lparr>len_m := of_nat (dec_value ds), f_m := f_m s OR flagContentLength,
                         calls := calls s @ [on_field ''Content-Length'' ds]\<rparr>)
                 else (Return, Some bad_content_length, it + length ds + 18, s))"
proof -
  define nm where "nm = ''Content-Length''"
  define B where "B = pre @ ''Content-Length: '' @ ds @ CR # LF # e # rest"
  from ds(1) obtain d ds' where dd: "ds = d # ds'" by (cases ds) auto
  with ds(2) have d: "is_digit d" by simp
  then have dsp: "\<not> (d = SP \<or> d = HT)" by (auto simp: is_digit_iff)
  have ln: "length nm = 14" by (simp add: nm_def)
  have nmc: "\<forall>c\<in>set nm. to_field_char c \<and> c \<noteq> CHR '':''"
    unfolding nm_def by (rule content_length_name)
  have vc: "\<forall>c\<in>set ds. is_value_char c" using ds(2) digit_value_char by blast
  have ncr: "\<not> is_digit CR" by (simp add: is_digit_def)
  have ceq: "ci_equal nm ''Content-Length''" by (simp add: nm_def ci_equal_def)
  have r0: "rd B it = Some (CHR ''C'')"
    using rd_append_at' [of pre it "CHR ''C''"] it by (simp add: B_def)
  have fn: "field_name_loop B it = Some (True, it + 14)"
    by (rule field_name_loop_at [where pre = pre and nm = nm
          and rest = "[SP] @ ds @ CR # LF # e # rest"])
       (simp_all add: B_def nm_def [symmetric] it ln nmc)
  have sw: "scan_while (\<lambda>c. c = SP \<or> c = HT) B (it + 14 + 1) = Some (it + 16)"
    by (rule scan_while_at [where pre = "pre @ nm @ [CHR '':'']" and ws = "[SP]" and e = d
          and rest = "ds' @ CR # LF # e # rest"])
       (simp_all add: B_def nm_def [symmetric] it ln dd dsp)
  have vl: "field_value_loop B (it + 16) (it + 16) =
              Some (None, it + length ds + 18, it + 16 + length ds)"
    by (rule field_value_loop_at [where pre = "pre @ nm @ [CHR '':'', SP]" and vs = ds and e = e
          and rest = rest])
       (simp_all add: B_def nm_def [symmetric] it ln ds e vc)
  have ms1: "make_string B it (it + 14) = nm"
    by (rule make_string_at [where pre = pre
          and rest = "CHR '':'' # SP # ds @ CR # LF # e # rest"])
       (simp_all add: B_def nm_def [symmetric] it ln)
  have ms2: "make_string B (it + 16) (it + 16 + length ds) = ds"
    by (rule make_string_at [where pre = "pre @ nm @ [CHR '':'', SP]"
          and rest = "CR # LF # e # rest"])
       (simp_all add: B_def nm_def [symmetric] it ln)
  have df: "do_field ne B nm (it + 16) (it + 16 + length ds) s =
           Some (if dec_value ds \<le> 18446744073709551609
                 then (None, s\<lparr>len_m := of_nat (dec_value ds), f_m := f_m s OR flagContentLength\<rparr>)
                 else (Some bad_content_length, s))"
    by (rule do_field_content_length_at [where pre = "pre @ nm @ [CHR '':'', SP]" and c = CR
          and rest = "LF # e # rest"])
       (simp_all add: B_def nm_def [symmetric] it ln ds ncr ci_equal_refl s)
  have c0: "(CHR ''C'' = CR) = False" by simp
  show ?thesis
  proof (cases "dec_value ds \<le> 18446744073709551609")
    case True
    with df have df': "do_field ne B nm (it + 16) (it + 16 + length ds) s =
        Some (None, s\<lparr>len_m := of_nat (dec_value ds), f_m := f_m s OR flagContentLength\<rparr>)"
      by simp
    have "parse_fields_step ne B it s =
            Some (Again, None, it + length ds + 18,
              s\<lparr>len_m := of_nat (dec_value ds), f_m := f_m s OR flagContentLength,
                calls := calls s @ [on_field nm ds]\<rparr>)"
      unfolding parse_fields_step_def
      by (simp only: r0 c0 fn sw vl ms1 ms2 df' option.case prod.case if_False if_True
            simp_thms) simp
    with True show ?thesis by (simp add: B_def nm_def)
  next
    case False
    with df have df': "do_field ne B nm (it + 16) (it + 16 + length ds) s =
        Some (Some bad_content_length, s)"
      by simp
    have "parse_fields_step ne B it s =
            Some (Return, Some bad_content_length, it + length ds + 18, s)"
      unfolding parse_fields_step_def
      by (simp only: r0 c0 fn sw vl ms1 ms2 df' option.case prod.case if_False if_True
            simp_thms option.distinct)
    with False show ?thesis by (simp add: B_def)
  qed
qed


lemma request_line:
  "parse_startline True (''GET / HTTP/1.1'' @ CRLF @ rest) 0 s =
     Some (None, 16, s\<lparr>calls := calls s @ [on_request ''GET'' ''/'' 11]\<rparr>)"
  by (simp add: ev)

lemma search_no_cr:
  "CR \<notin> set xs \<Longrightarrow>
     search (CR # p) (xs @ ys) = map_option (\<lambda>k. length xs + k) (search (CR # p) ys)"
proof (induction xs)
  case Nil
  show ?case by (simp add: option.map_ident)
next
  case (Cons x xs)
  then show ?case by (auto simp: option.map_comp o_def)
qed

lemma search_hit: "search (c # p) ((c # p) @ rest) = Some 0"
  by simp

lemma content_length_fields:
  assumes ds: "ds \<noteq> []" "\<forall>c\<in>set ds. is_digit c"
    and s: "f_m s AND flagContentLength = 0" "f_m s AND flagChunked = 0"
    and it: "it = length pre"
  shows "parse_fields ne (pre @ ''Content-Length: '' @ ds @ CRLF @ CRLF) it s =
           Some (if dec_value ds \<le> 18446744073709551609
                 then (None, it + length ds + 20,
                       s\<lparr>len_m := of_nat (dec_value ds), f_m := f_m s OR flagContentLength,
                         calls := calls s @ [on_field ''Content-Length'' ds]\<rparr>)
                 else (Some bad_content_length, it + length ds + 18, s))"
proof -
  define B where "B = pre @ ''Content-Length: '' @ ds @ CRLF @ CRLF"
  have B1: "B = pre @ ''Content-Length: '' @ ds @ CR # LF # CR # [LF]"
    by (simp add: B_def CRLF_def)
  have B2: "B = (pre @ ''Content-Length: '' @ ds @ [CR, LF]) @ CR # [LF]"
    by (simp add: B_def CRLF_def)
  have B3: "B = (pre @ ''Content-Length: '' @ ds @ [CR, LF, CR]) @ LF # []"
    by (simp add: B_def CRLF_def)
  note st = content_length_step [OF ds _ _ s it, of CR ne "[LF]", folded B1]
  have r1: "rd B (it + length ds + 18) = Some CR"
    unfolding B2 by (rule rd_append_at') (simp add: it)
  have r2: "rd B (it + length ds + 18 + 1) = Some LF"
    unfolding B3 by (rule rd_append_at') (simp add: it)
  have c1: "(LF \<noteq> LF) = False" by simp
  have nx: "parse_fields_step ne B (it + length ds + 18) s' =
              Some (Return, None, it + length ds + 18 + 2, s')" for s'
    unfolding parse_fields_step_def
    by (simp only: r1 r2 c1 option.case if_True if_False simp_thms)
  show ?thesis
  proof (cases "dec_value ds \<le> 18446744073709551609")
    case True
    with st have "parse_fields_step ne B it s =
        Some (Again, None, it + length ds + 18,
          s\<lparr>len_m := of_nat (dec_value ds), f_m := f_m s OR flagContentLength,
            calls := calls s @ [on_field ''Content-Length'' ds]\<rparr>)" by simp
    then have "parse_fields ne B it s =
        Some (None, it + length ds + 18 + 2,
          s\<lparr>len_m := of_nat (dec_value ds), f_m := f_m s OR flagContentLength,
            calls := calls s @ [on_field ''Content-Length'' ds]\<rparr>)"
      by (subst parse_fields.simps, simp only: option.case prod.case step.case)
         (subst parse_fields.simps, simp only: nx option.case prod.case step.case)
    with True show ?thesis by (simp add: B_def)
  next
    case False
    with st have "parse_fields_step ne B it s =
        Some (Return, Some bad_content_length, it + length ds + 18, s)" by simp
    then have "parse_fields ne B it s = Some (Some bad_content_length, it + length ds + 18, s)"
      by (subst parse_fields.simps, simp only: option.case prod.case step.case)
    with False show ?thesis by (simp add: B_def)
  qed
qed


lemma digits_no_CR: "\<forall>c\<in>set ds. is_digit c \<Longrightarrow> CR \<notin> set ds"
  by (auto simp: is_digit_iff)

lemma content_length_terminator:
  assumes "\<forall>c\<in>set ds. is_digit c" and "CR \<notin> set line"
  shows "find_2x_crlf (line @ CRLF @ ''Content-Length: '' @ ds @ CRLF @ CRLF) 0
           (length (line @ CRLF @ ''Content-Length: '' @ ds @ CRLF @ CRLF)) =
         Some (length line + length ds + 18)"
proof -
  define fld where "fld = LF # ''Content-Length: '' @ ds"
  have lf: "length fld = length ds + 17" by (simp add: fld_def)
  have nf: "CR \<notin> set fld" using digits_no_CR [OF assms(1)] by (simp add: fld_def)
  have a: "search [CR, LF, CR, LF] (fld @ [CR, LF, CR, LF] @ []) = Some (length fld)"
    unfolding search_no_cr [OF nf] search_hit by simp
  have b: "search [CR, LF, CR, LF] (CR # fld @ [CR, LF, CR, LF]) = Some (length fld + 1)"
    using a by (simp add: fld_def)
  have c: "search [CR, LF, CR, LF] (line @ CR # fld @ [CR, LF, CR, LF]) =
             Some (length line + (length fld + 1))"
    unfolding search_no_cr [OF assms(2)] b by simp
  have e: "line @ CRLF @ ''Content-Length: '' @ ds @ CRLF @ CRLF = line @ CR # fld @ [CR, LF, CR, LF]"
    by (simp add: fld_def CRLF_def)
  show ?thesis
    unfolding e find_2x_crlf_def using c by (simp add: lf)
qed

lemma content_length_header:
  assumes ds: "ds \<noteq> []" "\<forall>c\<in>set ds. is_digit c"
    and line: "CR \<notin> set line"
    and s0: "f_m s0 = 0" "skip_m s0 = 0"
    and sl: "parse_startline isRequest (line @ CRLF @ ''Content-Length: '' @ ds @ CRLF @ CRLF) 0
               (s0\<lparr>skip_m := 0\<rparr>) =
             Some (None, length line + 2, s0\<lparr>skip_m := 0, calls := calls s0 @ [call]\<rparr>)"
  shows "write_bufs isRequest ne s0 [line @ CRLF @ ''Content-Length: '' @ ds @ CRLF @ CRLF] =
           Some (if dec_value ds \<le> 18446744073709551609
                 then (length line + length ds + 22, None,
                       s0\<lparr>len_m := of_nat (dec_value ds), skip_m := 0, f_m := 9,
                         calls := calls s0 @ [call, on_field ''Content-Length'' ds, on_header]\<rparr>)
                 else (0, Some bad_content_length,
                       s0\<lparr>skip_m := 0, calls := calls s0 @ [call]\<rparr>))"
proof -
  define B where "B = line @ CRLF @ ''Content-Length: '' @ ds @ CRLF @ CRLF"
  define s1 where "s1 = s0\<lparr>skip_m := 0, calls := calls s0 @ [call]\<rparr>"
  have B1: "B = (line @ CRLF) @ ''Content-Length: '' @ ds @ CRLF @ CRLF" by (simp add: B_def)
  have n4: "(length B < 4) = False" by (simp add: B_def CRLF_def)
  have ft: "find_2x_crlf B (unat (skip_m s0)) (length B) = Some (length line + length ds + 18)"
    using content_length_terminator [OF ds(2) line] by (simp add: B_def s0)
  have f1: "f_m s1 AND flagContentLength = 0" "f_m s1 AND flagChunked = 0"
    by (simp_all add: s1_def s0)
  have l2: "length line + 2 = length (line @ CRLF)" by (simp add: CRLF_def)
  note pf = content_length_fields [OF ds f1 l2, of ne, folded B1]
  note sl' = sl [folded B_def s1_def]
  have wb: "write_bufs isRequest ne s0 [B] = parse_header isRequest ne s0 B"
    by (simp add: write_bufs_def maybe_flatten_def s0)
  show ?thesis
  proof (cases "dec_value ds \<le> 18446744073709551609")
    case True
    with pf have pf': "parse_fields ne B (length line + 2) s1 =
        Some (None, length line + 2 + length ds + 20,
          s1\<lparr>len_m := of_nat (dec_value ds), f_m := f_m s1 OR flagContentLength,
            calls := calls s1 @ [on_field ''Content-Length'' ds]\<rparr>)" by simp
    have "parse_header isRequest ne s0 B =
            Some (length line + length ds + 18 + 4, None,
              s1\<lparr>len_m := of_nat (dec_value ds), f_m := f_m s1 OR flagContentLength,
                calls := calls s1 @ [on_field ''Content-Length'' ds]\<rparr>
              \<lparr>calls := calls (s1\<lparr>len_m := of_nat (dec_value ds),
                   f_m := f_m s1 OR flagContentLength,
                   calls := calls s1 @ [on_field ''Content-Length'' ds]\<rparr>) @ [on_header],
                f_m := f_m (s1\<lparr>len_m := of_nat (dec_value ds),
                   f_m := f_m s1 OR flagContentLength,
                   calls := calls s1 @ [on_field ''Content-Length'' ds]\<rparr>) OR flagHeader\<rparr>)"
      unfolding parse_header_def Let_def
      by (simp only: n4 ft sl' pf' option.case prod.case if_False simp_thms) simp
    with True wb show ?thesis
      unfolding B_def [symmetric] by (simp add: s1_def s0 flag_defs)
  next
    case False
    with pf have pf': "parse_fields ne B (length line + 2) s1 =
        Some (Some bad_content_length, length line + 2 + length ds + 18, s1)" by simp
    have "parse_header isRequest ne s0 B = Some (0, Some bad_content_length, s1)"
      unfolding parse_header_def Let_def
      by (simp only: n4 ft sl' pf' option.case prod.case if_False if_True simp_thms
            option.distinct)
    with False wb show ?thesis
      unfolding B_def [symmetric] by (simp add: s1_def)
  qed
qed

lemma response_line:
  "parse_startline False (''HTTP/1.1 200 OK'' @ CRLF @ rest) 0 s =
     Some (None, 17, s\<lparr>calls := calls s @ [on_response 200 ''OK'' 11]\<rparr>)"
  by (simp add: ev)

lemma content_length_request:
  assumes "ds \<noteq> []" "\<forall>c\<in>set ds. is_digit c"
  shows "write_bufs True ne (new_parser x0)
           [''GET / HTTP/1.1'' @ CRLF @ ''Content-Length: '' @ ds @ CRLF @ CRLF] =
         Some (if dec_value ds \<le> 18446744073709551609
               then (length ds + 36, None,
                     (new_parser x0)\<lparr>len_m := of_nat (dec_value ds), f_m := 9,
                        calls := [on_request ''GET'' ''/'' 11, on_field ''Content-Length'' ds,
                                  on_header]\<rparr>)
               else (0, Some bad_content_length,
                     (new_parser x0)\<lparr>calls := [on_request ''GET'' ''/'' 11]\<rparr>))"
  using content_length_header [OF assms, of "''GET / HTTP/1.1''" "new_parser x0" True
      "on_request ''GET'' ''/'' 11" ne]
    request_line [of "''Content-Length: '' @ ds @ CRLF @ CRLF" "(new_parser x0)\<lparr>skip_m := 0\<rparr>"]
  by (simp add: new_parser_def)

lemma content_length_response:
  assumes "ds \<noteq> []" "\<forall>c\<in>set ds. is_digit c"
  shows "write_bufs False ne (new_parser x0)
           [''HTTP/1.1 200 OK'' @ CRLF @ ''Content-Length: '' @ ds @ CRLF @ CRLF] =
         Some (if dec_value ds \<le> 18446744073709551609
               then (length ds + 37, None,
                     (new_parser x0)\<lparr>len_m := of_nat (dec_value ds), f_m := 9,
                        calls := [on_response 200 ''OK'' 11, on_field ''Content-Length'' ds,
                                  on_header]\<rparr>)
               else (0, Some bad_content_length,
                     (new_parser x0)\<lparr>calls := [on_response 200 ''OK'' 11]\<rparr>))"
  using content_length_header [OF assms, of "''HTTP/1.1 200 OK''" "new_parser x0" False
      "on_response 200 ''OK'' 11" ne]
    response_line [of "''Content-Length: '' @ ds @ CRLF @ CRLF" "(new_parser x0)\<lparr>skip_m := 0\<rparr>"]
  by (simp add: new_parser_def)

text \<open>
  Claim C6, as amended. For a non-empty string of digits that a non-digit follows,
  \<open>parse_dec\<close> with an \<open>Unsigned\<close> of \<open>w \<ge> 4\<close> bits returns \<open>true\<close> exactly when the
  value of the string is at most \<open>10 * ((max - 10) / 10) + 9\<close>, and then yields that
  value. For 64 bits the bound is 18446744073709551609, six below \<open>2^64 - 1\<close>.

  Applied to Content-Length: \<open>do_field\<close>, for a field whose name is Content-Length in
  any case, in a parser that has recorded no framing, accepts such a value exactly when
  it is at most 18446744073709551609, stores it in \<open>len_\<close> and sets
  \<open>flagContentLength\<close>, and assigns \<open>bad_content_length\<close> otherwise, leaving the parser
  as it is; the stored 64-bit value is the value of the string. And \<open>write\<close> on a
  request or a response whose only field is that Content-Length completes the header
  with that length in the first case and returns zero with \<open>bad_content_length\<close> in
  the second.
\<close>

theorem parse_dec_accepts:
  assumes "ds \<noteq> []" and "\<forall>c\<in>set ds. is_digit c" and "\<not> is_digit c" and "4 \<le> w"
  shows "(\<exists>v r. parse_dec w (pre @ ds @ c # rest) (length pre) lst =
            Some (dec_value ds \<le> dec_limit w, v, r) \<and>
            (dec_value ds \<le> dec_limit w \<longrightarrow> v = dec_value ds)) \<and>
         dec_limit 64 = 2 ^ 64 - 1 - 6 \<and>
         (ci_equal name ''Content-Length'' \<and> content_length s = None \<and> \<not> is_chunked s \<longrightarrow>
            do_field ne (pre @ ds @ c # rest) name (length pre) lst s =
              Some (if dec_value ds \<le> 18446744073709551609
                    then (None, s\<lparr>len_m := of_nat (dec_value ds),
                                   f_m := f_m s OR flagContentLength\<rparr>)
                    else (Some bad_content_length, s))) \<and>
         (dec_value ds \<le> 18446744073709551609 \<longrightarrow>
            unat (of_nat (dec_value ds) :: 64 word) = dec_value ds) \<and>
         write_bufs True ne (new_parser x0)
           [''GET / HTTP/1.1'' @ CRLF @ ''Content-Length: '' @ ds @ CRLF @ CRLF] =
           Some (if dec_value ds \<le> 18446744073709551609
                 then (length ds + 36, None,
                       (new_parser x0)\<lparr>len_m := of_nat (dec_value ds), f_m := 9,
                          calls := [on_request ''GET'' ''/'' 11, on_field ''Content-Length'' ds,
                                    on_header]\<rparr>)
                 else (0, Some bad_content_length,
                       (new_parser x0)\<lparr>calls := [on_request ''GET'' ''/'' 11]\<rparr>)) \<and>
         write_bufs False ne (new_parser x0)
           [''HTTP/1.1 200 OK'' @ CRLF @ ''Content-Length: '' @ ds @ CRLF @ CRLF] =
           Some (if dec_value ds \<le> 18446744073709551609
                 then (length ds + 37, None,
                       (new_parser x0)\<lparr>len_m := of_nat (dec_value ds), f_m := 9,
                          calls := [on_response 200 ''OK'' 11, on_field ''Content-Length'' ds,
                                    on_header]\<rparr>)
                 else (0, Some bad_content_length,
                       (new_parser x0)\<lparr>calls := [on_response 200 ''OK'' 11]\<rparr>))"
proof (intro conjI impI)
  show "\<exists>v r. parse_dec w (pre @ ds @ c # rest) (length pre) lst =
            Some (dec_value ds \<le> dec_limit w, v, r) \<and>
            (dec_value ds \<le> dec_limit w \<longrightarrow> v = dec_value ds)"
    by (rule parse_dec_digits [OF assms])
next
  show "dec_limit 64 = 2 ^ 64 - 1 - 6" by (simp add: dec_limit_def)
next
  assume a: "ci_equal name ''Content-Length'' \<and> content_length s = None \<and> \<not> is_chunked s"
  then have "f_m s AND flagContentLength = 0" "f_m s AND flagChunked = 0"
    by (auto simp: content_length_def is_chunked_def split: if_splits)
  with a do_field_content_length [OF assms(1-3), of name s ne pre rest lst]
  show "do_field ne (pre @ ds @ c # rest) name (length pre) lst s =
          Some (if dec_value ds \<le> 18446744073709551609
                then (None, s\<lparr>len_m := of_nat (dec_value ds), f_m := f_m s OR flagContentLength\<rparr>)
                else (Some bad_content_length, s))"
    by simp
next
  assume "dec_value ds \<le> 18446744073709551609"
  then have "dec_value ds < 2 ^ 64" by simp
  then show "unat (of_nat (dec_value ds) :: 64 word) = dec_value ds"
    by (simp add: unat_of_nat)
next
  show "write_bufs True ne (new_parser x0)
           [''GET / HTTP/1.1'' @ CRLF @ ''Content-Length: '' @ ds @ CRLF @ CRLF] =
           Some (if dec_value ds \<le> 18446744073709551609
                 then (length ds + 36, None,
                       (new_parser x0)\<lparr>len_m := of_nat (dec_value ds), f_m := 9,
                          calls := [on_request ''GET'' ''/'' 11, on_field ''Content-Length'' ds,
                                    on_header]\<rparr>)
                 else (0, Some bad_content_length,
                       (new_parser x0)\<lparr>calls := [on_request ''GET'' ''/'' 11]\<rparr>))"
    by (rule content_length_request [OF assms(1,2)])
next
  show "write_bufs False ne (new_parser x0)
           [''HTTP/1.1 200 OK'' @ CRLF @ ''Content-Length: '' @ ds @ CRLF @ CRLF] =
           Some (if dec_value ds \<le> 18446744073709551609
                 then (length ds + 37, None,
                       (new_parser x0)\<lparr>len_m := of_nat (dec_value ds), f_m := 9,
                          calls := [on_response 200 ''OK'' 11, on_field ''Content-Length'' ds,
                                    on_header]\<rparr>)
                 else (0, Some bad_content_length,
                       (new_parser x0)\<lparr>calls := [on_response 200 ''OK'' 11]\<rparr>))"
    by (rule content_length_response [OF assms(1,2)])
qed

theorem parse_dec_accepts_witness:
  "(\<exists>r. parse_dec 64 ([] @ ''18446744073709551609'' @ CR # [LF]) (length ([] :: string)) 20 =
          Some (True, 18446744073709551609, r)) \<and>
   do_field False ([] @ ''18446744073709551609'' @ CR # [LF]) ''content-length''
       (length ([] :: string)) 20 (new_parser 0) =
     Some (None, (new_parser 0)\<lparr>len_m := 18446744073709551609, f_m := 1\<rparr>) \<and>
   unat (18446744073709551609 :: 64 word) = 18446744073709551609 \<and>
   write_bufs True False (new_parser 0)
       [''GET / HTTP/1.1'' @ CRLF @ ''Content-Length: '' @ ''18446744073709551609'' @ CRLF @ CRLF] =
     Some (56, None, (new_parser 0)\<lparr>len_m := 18446744073709551609, f_m := 9,
       calls := [on_request ''GET'' ''/'' 11, on_field ''Content-Length'' ''18446744073709551609'',
                 on_header]\<rparr>) \<and>
   write_bufs False False (new_parser 0)
       [''HTTP/1.1 200 OK'' @ CRLF @ ''Content-Length: '' @ ''18446744073709551610'' @ CRLF @ CRLF] =
     Some (0, Some bad_content_length, (new_parser 0)\<lparr>calls := [on_response 200 ''OK'' 11]\<rparr>)"
proof -
  have lc: "char_of (99 :: nat) = CHR ''c''" "char_of (108 :: nat) = CHR ''l''"
    by (simp_all add: char_of_def bit_Suc_0_iff)
  show ?thesis
    using parse_dec_accepts [where ds = "''18446744073709551609''" and c = CR and w = 64
        and pre = "[]" and rest = "[LF]" and lst = 20 and name = "''content-length''"
        and s = "new_parser 0" and ne = False and ?x0.0 = 0]
      parse_dec_accepts [where ds = "''18446744073709551610''" and c = CR and w = 64
        and pre = "[]" and rest = "[LF]" and lst = 20 and name = "''content-length''"
        and s = "new_parser 0" and ne = False and ?x0.0 = 0]
    by (simp add: dec_value_def dec_limit_def is_digit_def digit_val_def ci_equal_def to_lower_def
          content_length_def is_chunked_def new_parser_def flag_defs CRLF_def lc)
qed

text \<open>
  The largest 64-bit value is refused, by \<open>parse_dec\<close> and so as a Content-Length: after
  nineteen digits \<open>v\<close> is 1844674407370955161, above \<open>(max - 10) / 10\<close>.
\<close>

theorem parse_dec_counterexample:
  "dec_value ''18446744073709551615'' = 2 ^ 64 - 1 \<and>
   parse_dec 64 (''18446744073709551615'' @ CRLF) 0 20 = Some (False, 1844674407370955161, 19) \<and>
   write_bufs True False (new_parser 0)
     [''GET / HTTP/1.1'' @ CRLF @ ''Content-Length: 18446744073709551615'' @ CRLF @ CRLF]
     = Some (0, Some bad_content_length,
         (new_parser 0)\<lparr>calls := [on_request ''GET'' ''/'' 11]\<rparr>)"
  by (simp add: ev dec_value_def)

section \<open>The end of the range given to the decimal accumulator\<close>

lemma parse_dec_loop_True:
  "parse_dec_loop w buf it v = Some (True, v', r) \<Longrightarrow>
     it < r \<and> r < length buf \<and> \<not> is_digit (buf ! r)"
proof (induction "length buf - it" arbitrary: it v rule: less_induct)
  case less
  show ?case
  proof (cases "rd buf (it + 1)")
    case None
    with less.prems show ?thesis by (subst (asm) parse_dec_loop.simps) simp
  next
    case (Some c)
    then have lt: "it + 1 < length buf" and c: "c = buf ! (it + 1)"
      by (auto simp: rd_def split: if_splits)
    show ?thesis
    proof (cases "is_digit c")
      case False
      with Some less.prems have "r = it + 1"
        by (subst (asm) parse_dec_loop.simps) simp
      with lt c False show ?thesis by simp
    next
      case True
      with Some less.prems have
        rec: "parse_dec_loop w buf (it + 1) ((10 * v + digit_val c) mod 2 ^ w) = Some (True, v', r)"
        by (subst (asm) parse_dec_loop.simps) (simp split: if_splits)
      from lt have "length buf - (it + 1) < length buf - it" by arith
      from less.hyps [OF this rec] show ?thesis by simp
    qed
  qed
qed

text \<open>
  Claim C10, as amended. The result of \<open>parse_dec\<close> is the same for every \<open>last\<close>. When
  the range from \<open>it\<close> to \<open>last\<close> lies in the view and holds digits only, and
  \<open>parse_dec\<close> returns \<open>true\<close>, the last position it has dereferenced is at or beyond
  \<open>last\<close>, lies in the view and holds no digit: the function returns \<open>true\<close> only at a
  non-digit at or after \<open>last\<close>, which the caller has to provide.
\<close>

theorem parse_dec_reads_last:
  assumes "\<forall>i. it \<le> i \<and> i < lst \<longrightarrow> i < length buf \<and> is_digit (buf ! i)"
    and "parse_dec w buf it lst = Some (True, v, r)"
  shows "lst \<le> r \<and> r < length buf \<and> \<not> is_digit (buf ! r) \<and>
         parse_dec w buf it lst' = parse_dec w buf it lst"
proof -
  from assms(2) obtain c where c: "rd buf it = Some c" "is_digit c"
    and l: "parse_dec_loop w buf it (digit_val c mod 2 ^ w) = Some (True, v, r)"
    by (auto simp: parse_dec_def split: option.splits if_splits)
  from parse_dec_loop_True [OF l]
  have r: "it < r" "r < length buf" "\<not> is_digit (buf ! r)" by simp_all
  have "lst \<le> r"
  proof (rule ccontr)
    assume "\<not> lst \<le> r"
    with r(1) assms(1) have "is_digit (buf ! r)" by simp
    with r(3) show False by simp
  qed
  with r show ?thesis by (simp add: parse_dec_def)
qed

theorem parse_dec_reads_last_witness:
  "(3::nat) \<le> 3 \<and> (3::nat) < length (''123'' @ CRLF) \<and> \<not> is_digit ((''123'' @ CRLF) ! 3) \<and>
   parse_dec 64 (''123'' @ CRLF) 0 7 = parse_dec 64 (''123'' @ CRLF) 0 3"
proof -
  have d: "\<forall>i. 0 \<le> i \<and> i < 3 \<longrightarrow>
             i < length (''123'' @ CRLF) \<and> is_digit ((''123'' @ CRLF) ! i)"
  proof (intro allI impI)
    fix i :: nat
    assume "0 \<le> i \<and> i < 3"
    then have "i = 0 \<or> i = 1 \<or> i = 2" by arith
    then show "i < length (''123'' @ CRLF) \<and> is_digit ((''123'' @ CRLF) ! i)"
      by (auto simp: is_digit_def CRLF_def)
  qed
  have p: "parse_dec 64 (''123'' @ CRLF) 0 3 = Some (True, 123, 3)"
    by (simp add: ev)
  from parse_dec_reads_last [OF d p, of 7] show ?thesis .
qed

text \<open>
  A range of twenty-five digits: the guard stops the loop at the twentieth, and no
  position from the twenty-first to \<open>last\<close> is dereferenced.
\<close>

theorem parse_dec_stops_before_last:
  "list_all is_digit ''9999999999999999999999999'' \<and>
   length ''9999999999999999999999999'' = 25 \<and>
   parse_dec 64 (''9999999999999999999999999'' @ CRLF) 0 25
     = Some (False, 9999999999999999999, 19)"
  by (simp add: ev)

section \<open>The header terminator\<close>

text \<open>The doubled CRLF begins at index \<open>t\<close> of the view.\<close>

definition crlf2_at :: "string \<Rightarrow> nat \<Rightarrow> bool" where
  "crlf2_at buf t = (take 4 (drop t buf) = [CR, LF, CR, LF])"

lemma search_None_iff:
  "search pat xs = None \<longleftrightarrow> (\<forall>k<length xs. take (length pat) (drop k xs) \<noteq> pat)"
proof (induction xs)
  case Nil
  show ?case by simp
next
  case (Cons c cs)
  have "(\<forall>k<length (c # cs). take (length pat) (drop k (c # cs)) \<noteq> pat) \<longleftrightarrow>
        take (length pat) (c # cs) \<noteq> pat \<and>
        (\<forall>k<length cs. take (length pat) (drop k cs) \<noteq> pat)"
    by (auto simp: less_Suc_eq_0_disj)
  with Cons.IH show ?case by simp
qed

lemma search_Some_iff:
  "search pat xs = Some k \<longleftrightarrow>
     k < length xs \<and> take (length pat) (drop k xs) = pat \<and>
     (\<forall>j<k. take (length pat) (drop j xs) \<noteq> pat)"
proof (induction xs arbitrary: k)
  case Nil
  show ?case by simp
next
  case (Cons c cs)
  show ?case
  proof (cases "take (length pat) (c # cs) = pat")
    case True
    then show ?thesis by (cases k) auto
  next
    case False
    show ?thesis
    proof (cases k)
      case 0
      with False show ?thesis by simp
    next
      case (Suc k')
      have "(\<forall>j<Suc k'. take (length pat) (drop j (c # cs)) \<noteq> pat) \<longleftrightarrow>
            (\<forall>j<k'. take (length pat) (drop j cs) \<noteq> pat)"
        using False by (auto simp: less_Suc_eq_0_disj)
      with False Suc Cons.IH [of k'] show ?thesis by auto
    qed
  qed
qed

lemma find_2x_crlf_search:
  "find_2x_crlf buf sk (length buf) = map_option (\<lambda>k. sk + k) (search [CR, LF, CR, LF] (drop sk buf))"
  by (simp add: find_2x_crlf_def)

lemma search_crlf2_None_iff:
  "search [CR, LF, CR, LF] (drop sk buf) = None \<longleftrightarrow>
     (\<forall>k<length buf - sk. \<not> crlf2_at buf (sk + k))"
proof -
  have l: "length [CR, LF, CR, LF] = 4" by simp
  have d: "drop k (drop sk buf) = drop (sk + k) buf" for k by (simp add: add.commute)
  show ?thesis
    using search_None_iff [of "[CR, LF, CR, LF]" "drop sk buf"]
    unfolding l d crlf2_at_def by simp
qed

lemma search_crlf2_Some_iff:
  "search [CR, LF, CR, LF] (drop sk buf) = Some k \<longleftrightarrow>
     k < length buf - sk \<and> crlf2_at buf (sk + k) \<and> (\<forall>j<k. \<not> crlf2_at buf (sk + j))"
proof -
  have l: "length [CR, LF, CR, LF] = 4" by simp
  have d: "drop k (drop sk buf) = drop (sk + k) buf" for k by (simp add: add.commute)
  show ?thesis
    using search_Some_iff [of "[CR, LF, CR, LF]" "drop sk buf" k]
    unfolding l d crlf2_at_def by simp
qed

lemma crlf2_at_less: "crlf2_at buf t \<Longrightarrow> t + 4 \<le> length buf"
proof -
  assume "crlf2_at buf t"
  then have "length (take 4 (drop t buf)) = 4" by (simp add: crlf2_at_def)
  then show ?thesis by simp
qed

lemma find_2x_crlf_None_iff:
  "find_2x_crlf buf sk (length buf) = None \<longleftrightarrow> (\<forall>t\<ge>sk. \<not> crlf2_at buf t)"
proof
  assume "find_2x_crlf buf sk (length buf) = None"
  then have a: "\<forall>k<length buf - sk. \<not> crlf2_at buf (sk + k)"
    by (simp add: find_2x_crlf_search search_crlf2_None_iff)
  show "\<forall>t\<ge>sk. \<not> crlf2_at buf t"
  proof (intro allI impI notI)
    fix t assume "sk \<le> t" and c: "crlf2_at buf t"
    from crlf2_at_less [OF c] \<open>sk \<le> t\<close> have "t - sk < length buf - sk" by arith
    from a [rule_format, OF this] \<open>sk \<le> t\<close> c show False by simp
  qed
next
  assume "\<forall>t\<ge>sk. \<not> crlf2_at buf t"
  then show "find_2x_crlf buf sk (length buf) = None"
    by (simp add: find_2x_crlf_search search_crlf2_None_iff)
qed

lemma find_2x_crlf_Some_iff:
  "find_2x_crlf buf sk (length buf) = Some t \<longleftrightarrow>
     sk \<le> t \<and> crlf2_at buf t \<and> (\<forall>j. sk \<le> j \<and> j < t \<longrightarrow> \<not> crlf2_at buf j)"
proof
  assume "find_2x_crlf buf sk (length buf) = Some t"
  then obtain k where t: "t = sk + k"
    and k: "crlf2_at buf (sk + k)" "\<forall>j<k. \<not> crlf2_at buf (sk + j)"
    by (auto simp: find_2x_crlf_search search_crlf2_Some_iff)
  have "\<not> crlf2_at buf j" if "sk \<le> j \<and> j < t" for j
  proof -
    from that t have "j - sk < k" and e: "sk + (j - sk) = j" by arith+
    from k(2) [rule_format, OF this(1)] e show ?thesis by simp
  qed
  with t k(1) show "sk \<le> t \<and> crlf2_at buf t \<and> (\<forall>j. sk \<le> j \<and> j < t \<longrightarrow> \<not> crlf2_at buf j)"
    by simp
next
  assume a: "sk \<le> t \<and> crlf2_at buf t \<and> (\<forall>j. sk \<le> j \<and> j < t \<longrightarrow> \<not> crlf2_at buf j)"
  then have "t + 4 \<le> length buf" by (simp add: crlf2_at_less)
  with a have "t - sk < length buf - sk" by arith
  with a have "search [CR, LF, CR, LF] (drop sk buf) = Some (t - sk)"
    by (simp add: search_crlf2_Some_iff)
  with a show "find_2x_crlf buf sk (length buf) = Some t"
    by (simp add: find_2x_crlf_search)
qed

section \<open>Where a successful parse of the header ends\<close>

text \<open>
  No scanning loop of the grammar layer passes a CR without looking at it: with a CR
  at index \<open>t\<close>, a loop that starts at or before \<open>t\<close> stops at or before \<open>t\<close>.
\<close>

lemma rd_Some_iff: "rd buf i = Some c \<longleftrightarrow> i < length buf \<and> c = buf ! i"
  by (auto simp: rd_def)

lemma scan_while_stop:
  "scan_while f buf it = Some j \<Longrightarrow> it \<le> t \<Longrightarrow> t < length buf \<Longrightarrow> \<not> f (buf ! t) \<Longrightarrow> j \<le> t"
proof (induction "length buf - it" arbitrary: it rule: less_induct)
  case less
  from less.prems(2,3) have c: "rd buf it = Some (buf ! it)" by (simp add: rd_def)
  show ?case
  proof (cases "f (buf ! it)")
    case False
    with c less.prems(1) have "j = it" by (subst (asm) scan_while.simps) simp
    with less.prems(2) show ?thesis by simp
  next
    case True
    with c less.prems(1) have r: "scan_while f buf (it + 1) = Some j"
      by (subst (asm) scan_while.simps) simp
    from True less.prems(4) have "it \<noteq> t" by auto
    with less.prems(2) have le: "it + 1 \<le> t" by simp
    with less.prems(3) have "length buf - (it + 1) < length buf - it" by arith
    from less.hyps [OF this r le less.prems(3,4)] show ?thesis .
  qed
qed

lemma not_field_char_CR: "\<not> to_field_char CR"
  by (simp add: to_field_char_def is_tchar_def)

lemma field_name_loop_stop:
  "field_name_loop buf it = Some (True, j) \<Longrightarrow> it \<le> t \<Longrightarrow> t < length buf \<Longrightarrow> buf ! t = CR
     \<Longrightarrow> j < t"
proof (induction "length buf - it" arbitrary: it rule: less_induct)
  case less
  from less.prems(2,3) have c: "rd buf it = Some (buf ! it)" by (simp add: rd_def)
  show ?case
  proof (cases "buf ! it = CHR '':''")
    case True
    with c less.prems(1) have "j = it" by (subst (asm) field_name_loop.simps) simp
    moreover from True less.prems(4) have "it \<noteq> t" by auto
    ultimately show ?thesis using less.prems(2) by simp
  next
    case False
    with c less.prems(1) have f: "to_field_char (buf ! it)"
      and r: "field_name_loop buf (it + 1) = Some (True, j)"
      by (subst (asm) field_name_loop.simps, simp split: if_splits)+
    from f less.prems(4) not_field_char_CR have "it \<noteq> t" by auto
    with less.prems(2) have le: "it + 1 \<le> t" by simp
    with less.prems(3) have "length buf - (it + 1) < length buf - it" by arith
    from less.hyps [OF this r le less.prems(3,4)] show ?thesis .
  qed
qed

lemma parse_reason_loop_stop:
  "parse_reason_loop buf it = Some (True, j) \<Longrightarrow> it \<le> t \<Longrightarrow> t < length buf \<Longrightarrow> buf ! t = CR
     \<Longrightarrow> j \<le> t"
proof (induction "length buf - it" arbitrary: it rule: less_induct)
  case less
  from less.prems(2,3) have c: "rd buf it = Some (buf ! it)" by (simp add: rd_def)
  show ?case
  proof (cases "buf ! it = CR")
    case True
    with c less.prems(1) have "j = it" by (subst (asm) parse_reason_loop.simps) simp
    with less.prems(2) show ?thesis by simp
  next
    case False
    with c less.prems(1) have r: "parse_reason_loop buf (it + 1) = Some (True, j)"
      by (subst (asm) parse_reason_loop.simps) (simp split: if_splits)
    from False less.prems(4) have "it \<noteq> t" by auto
    with less.prems(2) have le: "it + 1 \<le> t" by simp
    with less.prems(3) have "length buf - (it + 1) < length buf - it" by arith
    from less.hyps [OF this r le less.prems(3,4)] show ?thesis .
  qed
qed

lemma crlf2_at_nth:
  assumes "crlf2_at buf t"
  shows "t + 4 \<le> length buf" "buf ! t = CR" "buf ! (t + 1) = LF"
    "buf ! (t + 2) = CR" "buf ! (t + 3) = LF"
proof -
  show l: "t + 4 \<le> length buf" by (rule crlf2_at_less [OF assms])
  from assms have e: "take 4 (drop t buf) ! i = [CR, LF, CR, LF] ! i" for i
    by (simp add: crlf2_at_def)
  from l have n: "take 4 (drop t buf) ! i = buf ! (t + i)" if "i < 4" for i
    using that by simp
  from e [of 0] n [of 0] show "buf ! t = CR" by simp
  from e [of 1] n [of 1] show "buf ! (t + 1) = LF" by simp
  from e [of 2] n [of 2] show "buf ! (t + 2) = CR" by simp
  from e [of 3] n [of 3] show "buf ! (t + 3) = LF" by simp
qed

lemma crlf2_atI:
  assumes "t + 4 \<le> length buf" "buf ! t = CR" "buf ! (t + 1) = LF"
    "buf ! (t + 2) = CR" "buf ! (t + 3) = LF"
  shows "crlf2_at buf t"
proof -
  have "take 4 (drop t buf) = [CR, LF, CR, LF]"
  proof (rule nth_equalityI)
    show "length (take 4 (drop t buf)) = length [CR, LF, CR, LF]" using assms(1) by simp
  next
    fix i assume "i < length (take 4 (drop t buf))"
    then have "i < 4" by simp
    then have "i = 0 \<or> i = 1 \<or> i = 2 \<or> i = 3" by arith
    with assms show "take 4 (drop t buf) ! i = [CR, LF, CR, LF] ! i" by auto
  qed
  then show ?thesis by (simp add: crlf2_at_def)
qed

lemma not_value_char_ows: "\<not> is_value_char SP" "\<not> is_value_char HT"
  by (simp_all add: is_value_char_def)

lemma field_value_loop_stop:
  "field_value_loop buf q lst = Some (None, it3, lst') \<Longrightarrow> q \<le> t \<Longrightarrow> crlf2_at buf t \<Longrightarrow>
     it3 \<le> t + 2 \<and> 2 \<le> it3 \<and> buf ! (it3 - 2) = CR \<and> buf ! (it3 - 1) = LF"
proof (induction "length buf - q" arbitrary: q lst rule: less_induct)
  case less
  note t = crlf2_at_nth [OF less.prems(3)]
  from less.prems(2) t(1) have r0: "rd buf q = Some (buf ! q)" by (simp add: rd_def)
  show ?case
  proof (cases "buf ! q = CR")
    case False
    with r0 have crlf: "field_value_crlf buf q = Some (None, False, q)"
      by (simp add: field_value_crlf_def)
    from False t(2) have "q \<noteq> t" by auto
    with less.prems(2) have le: "q + 1 \<le> t" by simp
    from less.prems(1) crlf r0 obtain l where
      rec: "field_value_loop buf (q + 1) l = Some (None, it3, lst')"
      by (subst (asm) field_value_loop.simps) (auto split: if_splits)
    from le t(1) have "length buf - (q + 1) < length buf - q" by arith
    from less.hyps [OF this rec le less.prems(3)] show ?thesis .
  next
    case True
    from less.prems(2) t(1) have r1: "rd buf (q + 1) = Some (buf ! (q + 1))"
      and r2: "rd buf (q + 2) = Some (buf ! (q + 2))" by (simp_all add: rd_def)
    have lf: "buf ! (q + 1) = LF"
    proof (rule ccontr)
      assume "buf ! (q + 1) \<noteq> LF"
      with True r0 r1 have "field_value_crlf buf q = Some (Some bad_field, False, q + 1)"
        by (simp add: field_value_crlf_def)
      with less.prems(1) show False
        by (subst (asm) field_value_loop.simps) simp
    qed
    show ?thesis
    proof (cases "buf ! (q + 2) = SP \<or> buf ! (q + 2) = HT")
      case False
      with True lf r0 r1 r2 have "field_value_crlf buf q = Some (None, True, q + 2)"
        by (simp add: field_value_crlf_def)
      with less.prems(1) have "it3 = q + 2"
        by (subst (asm) field_value_loop.simps) simp
      with True lf less.prems(2) show ?thesis by simp
    next
      case ows: True
      with True lf r0 r1 r2 have crlf: "field_value_crlf buf q = Some (None, False, q + 2)"
        by (auto simp: field_value_crlf_def)
      from ows not_value_char_ows have nv: "\<not> is_value_char (buf ! (q + 2))" by auto
      from less.prems(1) crlf r2 nv ows have
        rec: "field_value_loop buf (q + 3) lst = Some (None, it3, lst')"
        by (subst (asm) field_value_loop.simps) (auto simp: numeral_3_eq_3 split: if_splits)
      from ows t(4) have "q \<noteq> t" by auto
      moreover from lf t(2) have "q + 1 \<noteq> t" by auto
      moreover from ows t(2) have "q + 2 \<noteq> t" by auto
      ultimately have le: "q + 3 \<le> t" using less.prems(2) by arith
      with t(1) have "length buf - (q + 3) < length buf - q" by arith
      from less.hyps [OF this rec le less.prems(3)] show ?thesis .
    qed
  qed
qed

text \<open>The three ways in which one turn of the loop of \<open>parse_fields\<close> ends.\<close>

lemma parse_fields_step_cases:
  assumes a: "parse_fields_step ne buf it s = Some (stp, ec, p, s')"
  obtains
    (err) "stp = Return" "ec \<noteq> None"
  | (blank) "rd buf it = Some CR" "rd buf (it + 1) = Some LF"
      "stp = Return" "ec = None" "p = it + 2" "s' = s"
  | (field) c it1 it2 lst s1 where
      "rd buf it = Some c" "c \<noteq> CR"
      "field_name_loop buf it = Some (True, it1)"
      "scan_while (\<lambda>c. c = SP \<or> c = HT) buf (it1 + 1) = Some it2"
      "field_value_loop buf it2 it2 = Some (None, p, lst)"
      "do_field ne buf (make_string buf it it1) it2 lst s = Some (None, s1)"
      "stp = Again" "ec = None"
      "s' = s1\<lparr>calls := calls s1 @
              [on_field (make_string buf it it1) (make_string buf it2 lst)]\<rparr>"
proof (cases "rd buf it")
  case None
  with a show ?thesis by (simp add: parse_fields_step_def)
next
  case c: (Some c)
  show ?thesis
  proof (cases "c = CR")
    case True
    show ?thesis
    proof (cases "rd buf (it + 1)")
      case None
      with a c True show ?thesis by (simp add: parse_fields_step_def)
    next
      case (Some d)
      show ?thesis
      proof (cases "d = LF")
        case True
        with a c \<open>c = CR\<close> Some show ?thesis
          by (intro blank) (simp_all add: parse_fields_step_def)
      next
        case False
        with a c \<open>c = CR\<close> Some show ?thesis
          by (intro err) (auto simp: parse_fields_step_def)
      qed
    qed
  next
    case ncr: False
    show ?thesis
    proof (cases "field_name_loop buf it")
      case None
      with a c ncr show ?thesis by (simp add: parse_fields_step_def)
    next
      case (Some r1)
      then obtain ok it1 where n: "field_name_loop buf it = Some (ok, it1)"
        by (cases r1) simp
      show ?thesis
      proof (cases ok)
        case False
        with a c ncr n show ?thesis
          by (intro err) (auto simp: parse_fields_step_def)
      next
        case ok: True
        show ?thesis
        proof (cases "scan_while (\<lambda>c. c = SP \<or> c = HT) buf (it1 + 1)")
          case None
          with a c ncr n ok show ?thesis by (simp add: parse_fields_step_def)
        next
          case w: (Some it2)
          show ?thesis
          proof (cases "field_value_loop buf it2 it2")
            case None
            with a c ncr n ok w show ?thesis by (simp add: parse_fields_step_def)
          next
            case (Some r3)
            then obtain e it3 lst where v: "field_value_loop buf it2 it2 = Some (e, it3, lst)"
              by (cases r3) auto
            show ?thesis
            proof (cases e)
              case (Some x)
              with a c ncr n ok w v show ?thesis
                by (intro err) (auto simp: parse_fields_step_def)
            next
              case e: None
              show ?thesis
              proof (cases "do_field ne buf (make_string buf it it1) it2 lst s")
                case None
                with a c ncr n ok w v e show ?thesis by (simp add: parse_fields_step_def)
              next
                case (Some r4)
                then obtain e' s1 where
                  d: "do_field ne buf (make_string buf it it1) it2 lst s = Some (e', s1)"
                  by (cases r4) auto
                show ?thesis
                proof (cases e')
                  case (Some x)
                  with a c ncr n ok w v e d show ?thesis
                    by (intro err) (auto simp: parse_fields_step_def)
                next
                  case None
                  with a c ncr n ok w v e d have
                    "stp = Again" "ec = None" "p = it3"
                    "s' = s1\<lparr>calls := calls s1 @
                       [on_field (make_string buf it it1) (make_string buf it2 lst)]\<rparr>"
                    by (simp_all add: parse_fields_step_def)
                  with c ncr n ok w v e d None show ?thesis
                    by (intro field [of c it1 it2 lst s1]) simp_all
                qed
              qed
            qed
          qed
        qed
      qed
    qed
  qed
qed

text \<open>
  With a CRLF before \<open>it\<close> and the first doubled CRLF of the view at \<open>t\<close>, a turn
  that ends without error either returns at the end of the doubled CRLF or leaves
  \<open>it\<close> after a CRLF again, not beyond \<open>t + 2\<close>.
\<close>

lemma parse_fields_step_stop:
  assumes a: "parse_fields_step ne buf it s = Some (stp, ec, p, s')"
    and ok: "stp = Return \<longrightarrow> ec = None"
    and inv: "it \<le> t + 2" "2 \<le> it" "buf ! (it - 2) = CR" "buf ! (it - 1) = LF"
    and t: "crlf2_at buf t" and first: "\<forall>j<t. \<not> crlf2_at buf j"
  shows "ec = None \<and> (stp = Return \<longrightarrow> p = t + 4) \<and>
         (stp = Again \<longrightarrow> p \<le> t + 2 \<and> 2 \<le> p \<and> buf ! (p - 2) = CR \<and> buf ! (p - 1) = LF)"
  using a
proof (cases rule: parse_fields_step_cases)
  case err
  with ok show ?thesis by simp
next
  case blank
  note n = crlf2_at_nth [OF t]
  from blank(1,2) have b: "it + 2 \<le> length buf" "buf ! it = CR" "buf ! (it + 1) = LF"
    by (auto simp: rd_Some_iff)
  from inv(2) have e: "it - 2 + 1 = it - 1" "it - 2 + 2 = it" "it - 2 + 3 = it + 1"
    "it - 2 + 4 = it + 2" by arith+
  have "crlf2_at buf (it - 2)"
    by (rule crlf2_atI) (simp_all only: e b inv)
  with first have "\<not> it - 2 < t" by auto
  with inv(1,2) have "it = t + 2" by arith
  with blank show ?thesis by simp
next
  case (field c it1 it2 lst s1)
  note n = crlf2_at_nth [OF t]
  from field(1,2) have c: "buf ! it \<noteq> CR" by (auto simp: rd_Some_iff)
  from c n(4) have "it \<noteq> t + 2" by auto
  moreover from inv(2,4) n(2) have "it \<noteq> t + 1" by auto
  ultimately have le: "it \<le> t" using inv(1) by arith
  from n(1) have tl: "t < length buf" by simp
  from field_name_loop_stop [OF field(3) le tl n(2)] have "it1 + 1 \<le> t" by simp
  from scan_while_stop [OF field(4) this tl] n(2) have "it2 \<le> t" by simp
  from field_value_loop_stop [OF field(5) this t] field(7,8) show ?thesis by simp
qed

lemma parse_fields_stop:
  "parse_fields ne buf it s = Some (None, p, s') \<Longrightarrow>
   it \<le> t + 2 \<Longrightarrow> 2 \<le> it \<Longrightarrow> buf ! (it - 2) = CR \<Longrightarrow> buf ! (it - 1) = LF \<Longrightarrow>
   crlf2_at buf t \<Longrightarrow> \<forall>j<t. \<not> crlf2_at buf j \<Longrightarrow> p = t + 4"
proof (induction "length buf - it" arbitrary: it s rule: less_induct)
  case less
  from less.prems(1) obtain stp ec q s1 where
    st: "parse_fields_step ne buf it s = Some (stp, ec, q, s1)"
    by (subst (asm) parse_fields.simps) (auto split: option.splits)
  show ?case
  proof (cases stp)
    case Return
    with st less.prems(1) have e: "ec = None" "q = p"
      by (subst (asm) parse_fields.simps, simp)+
    from parse_fields_step_stop [OF st _ less.prems(2-7)] e Return show ?thesis by simp
  next
    case Again
    with st less.prems(1) have rec: "parse_fields ne buf q s1 = Some (None, p, s')"
      by (subst (asm) parse_fields.simps) simp
    from parse_fields_step_stop [OF st _ less.prems(2-7)] Again
    have inv: "q \<le> t + 2" "2 \<le> q" "buf ! (q - 2) = CR" "buf ! (q - 1) = LF" by simp_all
    from st Again parse_fields_step_Again [of ne buf it s ec q s1]
    have "length buf - q < length buf - it" by simp arith
    from less.hyps [OF this rec inv less.prems(6,7)] show ?thesis .
  qed
qed

text \<open>The grammar layer leaves \<open>skip_\<close> as it is.\<close>

lemma do_field_skip: "do_field ne buf name vf vl s = Some (ec, s') \<Longrightarrow> skip_m s' = skip_m s"
  by (auto simp: do_field_def Let_def split: if_splits option.splits)

lemma parse_fields_step_skip:
  "parse_fields_step ne buf it s = Some (stp, ec, p, s') \<Longrightarrow> skip_m s' = skip_m s"
  by (auto simp: parse_fields_step_def split: option.splits if_splits dest!: do_field_skip)

lemma parse_fields_skip:
  "parse_fields ne buf it s = Some (ec, p, s') \<Longrightarrow> skip_m s' = skip_m s"
proof (induction "length buf - it" arbitrary: it s rule: less_induct)
  case less
  from less.prems(1) obtain stp e q s1 where
    st: "parse_fields_step ne buf it s = Some (stp, e, q, s1)"
    by (subst (asm) parse_fields.simps) (auto split: option.splits)
  note sk = parse_fields_step_skip [OF st]
  show ?case
  proof (cases stp)
    case Return
    with st less.prems(1) have "s' = s1"
      by (subst (asm) parse_fields.simps) simp
    with sk show ?thesis by simp
  next
    case Again
    with st less.prems(1) have rec: "parse_fields ne buf q s1 = Some (ec, p, s')"
      by (subst (asm) parse_fields.simps) simp
    from st Again parse_fields_step_Again [of ne buf it s e q s1]
    have "length buf - q < length buf - it" by simp arith
    from less.hyps [OF this rec] sk show ?thesis by simp
  qed
qed

lemma parse_startline_skip:
  "parse_startline isRequest buf it s = Some (ec, p, s') \<Longrightarrow> skip_m s' = skip_m s"
  by (auto simp: parse_startline_def parse_startline_request_def parse_startline_response_def
           split: option.splits if_splits)

text \<open>The start line ends at a CRLF, not beyond the first CR of the view.\<close>

lemma not_digit_CR: "\<not> is_digit CR"
  by (simp add: is_digit_def)

lemma parse_version_stop:
  assumes "parse_version buf it = Some (v, it')" and "0 \<le> v"
    and "it \<le> t" and "buf ! t = CR"
  shows "it' \<le> t"
proof -
  from assms(1,2) have f: "it' = it + 8"
    "buf ! it \<noteq> CR" "buf ! (it + 1) \<noteq> CR" "buf ! (it + 2) \<noteq> CR" "buf ! (it + 3) \<noteq> CR"
    "buf ! (it + 4) \<noteq> CR" "buf ! (it + 5) \<noteq> CR" "buf ! (it + 6) \<noteq> CR" "buf ! (it + 7) \<noteq> CR"
    using not_digit_CR
    by (auto simp: parse_version_def rd_Some_iff split: Option.bind_splits if_splits)
  from f(2-9) assms(4) have "t \<noteq> it" "t \<noteq> it + 1" "t \<noteq> it + 2" "t \<noteq> it + 3"
    "t \<noteq> it + 4" "t \<noteq> it + 5" "t \<noteq> it + 6" "t \<noteq> it + 7" by auto
  with assms(3) f(1) show ?thesis by arith
qed

lemma parse_status_stop:
  assumes "parse_status buf it = Some (v, it')" and "0 \<le> v"
    and "it \<le> t" and "buf ! t = CR"
  shows "it' \<le> t"
proof -
  from assms(1,2) have f: "it' = it + 3"
    "buf ! it \<noteq> CR" "buf ! (it + 1) \<noteq> CR" "buf ! (it + 2) \<noteq> CR"
    using not_digit_CR
    by (auto simp: parse_status_def rd_Some_iff split: Option.bind_splits if_splits)
  from f(2-4) assms(4) have "t \<noteq> it" "t \<noteq> it + 1" "t \<noteq> it + 2" by auto
  with assms(3) f(1) show ?thesis by arith
qed

lemma parse_as_stop:
  assumes "parse_as f buf it = Some (str, it')" and "str \<noteq> []" and "\<not> f CR"
    and "it \<le> t" and "t < length buf" and "buf ! t = CR"
  shows "it' + 1 \<le> t"
proof -
  from assms(1,2) have s: "scan_while f buf it = Some it'" and sp: "buf ! it' = SP"
    by (auto simp: parse_as_def rd_Some_iff split: option.splits if_splits)
  from scan_while_stop [OF s assms(4,5)] assms(3,6) have "it' \<le> t" by simp
  moreover from sp assms(6) have "it' \<noteq> t" by auto
  ultimately show ?thesis by simp
qed

lemma parse_crlf_True:
  "parse_crlf buf it = Some (True, it') \<Longrightarrow>
     it' = it + 2 \<and> buf ! it = CR \<and> buf ! (it + 1) = LF \<and> it + 2 \<le> length buf"
  by (auto simp: parse_crlf_def rd_Some_iff split: option.splits if_splits)

lemma not_tchar_CR: "\<not> is_tchar CR" and not_pathchar_CR: "\<not> is_pathchar CR"
  by (simp_all add: is_tchar_def is_pathchar_def)

lemma parse_startline_request_stop:
  assumes a: "parse_startline_request buf it s = Some (None, p, s')"
    and "it \<le> t" and "t < length buf" and "buf ! t = CR"
  shows "p \<le> t + 2 \<and> 2 \<le> p \<and> buf ! (p - 2) = CR \<and> buf ! (p - 1) = LF"
proof -
  from a obtain meth it1 path it2 version it3 where
    m: "parse_as is_tchar buf it = Some (meth, it1)" "meth \<noteq> []" and
    pa: "parse_as is_pathchar buf (it1 + 1) = Some (path, it2)" "path \<noteq> []" and
    v: "parse_version buf (it2 + 1) = Some (version, it3)" "0 \<le> version" and
    c: "parse_crlf buf it3 = Some (True, p)"
    by (auto simp: parse_startline_request_def split: option.splits if_splits)
  from parse_as_stop [OF m not_tchar_CR assms(2-4)] have "it1 + 1 \<le> t" .
  from parse_as_stop [OF pa not_pathchar_CR this assms(3,4)] have "it2 + 1 \<le> t" .
  from parse_version_stop [OF v this assms(4)] have "it3 \<le> t" .
  with parse_crlf_True [OF c] show ?thesis by simp
qed

lemma parse_startline_response_stop:
  assumes a: "parse_startline_response buf it s = Some (None, p, s')"
    and "it \<le> t" and "t < length buf" and "buf ! t = CR"
  shows "p \<le> t + 2 \<and> 2 \<le> p \<and> buf ! (p - 2) = CR \<and> buf ! (p - 1) = LF"
proof -
  from a obtain version it1 status it2 reason it3 where
    v: "parse_version buf it = Some (version, it1)" "0 \<le> version" and
    s1: "rd buf it1 = Some SP" and
    st: "parse_status buf (it1 + 1) = Some (status, it2)" "0 \<le> status" and
    s2: "rd buf it2 = Some SP" and
    r: "parse_reason buf (it2 + 1) = Some (reason, it3)" "reason \<noteq> []" and
    c: "parse_crlf buf it3 = Some (True, p)"
    by (auto simp: parse_startline_response_def split: option.splits if_splits)
  from parse_version_stop [OF v assms(2,4)] have "it1 \<le> t" .
  moreover from s1 assms(4) have "it1 \<noteq> t" by (auto simp: rd_Some_iff)
  ultimately have "it1 + 1 \<le> t" by simp
  from parse_status_stop [OF st this assms(4)] have "it2 \<le> t" .
  moreover from s2 assms(4) have "it2 \<noteq> t" by (auto simp: rd_Some_iff)
  ultimately have le: "it2 + 1 \<le> t" by simp
  from r have "parse_reason_loop buf (it2 + 1) = Some (True, it3)"
    by (auto simp: parse_reason_def split: option.splits if_splits)
  from parse_reason_loop_stop [OF this le assms(3,4)] have "it3 \<le> t" .
  with parse_crlf_True [OF c] show ?thesis by simp
qed

lemma parse_startline_stop:
  assumes "parse_startline isRequest buf 0 s = Some (None, p, s')" and "crlf2_at buf t"
  shows "p \<le> t + 2 \<and> 2 \<le> p \<and> buf ! (p - 2) = CR \<and> buf ! (p - 1) = LF"
proof -
  note n = crlf2_at_nth [OF assms(2)]
  from n(1) have tl: "t < length buf" by simp
  show ?thesis
  proof (cases isRequest)
    case True
    with assms(1) have "parse_startline_request buf 0 s = Some (None, p, s')"
      by (simp add: parse_startline_def)
    from parse_startline_request_stop [OF this _ tl n(2)] show ?thesis by simp
  next
    case False
    with assms(1) have "parse_startline_response buf 0 s = Some (None, p, s')"
      by (simp add: parse_startline_def)
    from parse_startline_response_stop [OF this _ tl n(2)] show ?thesis by simp
  qed
qed

section \<open>The framing of the header\<close>

lemma have_header_set: "have_header (s\<lparr>f_m := f_m s OR flagHeader\<rparr>)"
  by (simp add: have_header_def flagHeader_def word_ao_absorbs word_bw_comms)

lemma parse_header_short:
  "length buf < 4 \<Longrightarrow> parse_header isRequest ne s buf = Some (0, Some need_more, s)"
  by (simp add: parse_header_def)

lemma parse_header_not_found:
  assumes "4 \<le> length buf" and "\<forall>t\<ge>unat (skip_m s). \<not> crlf2_at buf t"
  shows "parse_header isRequest ne s buf =
           Some (0, Some need_more, s\<lparr>skip_m := of_nat (length buf - 3)\<rparr>)"
proof -
  from assms(2) have "find_2x_crlf buf (unat (skip_m s)) (length buf) = None"
    by (simp add: find_2x_crlf_None_iff)
  with assms(1) show ?thesis by (simp add: parse_header_def)
qed

lemma parse_header_found_skip:
  assumes "find_2x_crlf buf (unat (skip_m s)) (length buf) = Some t"
    and "parse_header isRequest ne s buf = Some (n, ec, s')"
  shows "skip_m s' = 0"
proof -
  from assms(1) have "crlf2_at buf t" by (simp add: find_2x_crlf_Some_iff)
  from crlf2_at_less [OF this] have "\<not> length buf < 4" by simp
  with assms show ?thesis
    by (auto simp: parse_header_def Let_def split: option.splits if_splits
             dest!: parse_startline_skip parse_fields_skip)
qed

lemma parse_header_found:
  assumes sk: "unat (skip_m s) \<le> t" and t: "crlf2_at buf t" and first: "\<forall>j<t. \<not> crlf2_at buf j"
    and sl: "parse_startline isRequest buf 0 (s\<lparr>skip_m := 0\<rparr>) = Some (None, p1, s1)"
    and fl: "parse_fields ne buf p1 s1 = Some (None, p2, s2)"
  shows "p2 = t + 4" and
    "parse_header isRequest ne s buf =
       Some (t + 4, None, s2\<lparr>calls := calls s2 @ [on_header], f_m := f_m s2 OR flagHeader\<rparr>)"
proof -
  from sk t first have f: "find_2x_crlf buf (unat (skip_m s)) (length buf) = Some t"
    by (simp add: find_2x_crlf_Some_iff)
  from crlf2_at_less [OF t] have n: "\<not> length buf < 4" by simp
  from parse_startline_stop [OF sl t]
  have inv: "p1 \<le> t + 2" "2 \<le> p1" "buf ! (p1 - 2) = CR" "buf ! (p1 - 1) = LF" by simp_all
  from parse_fields_stop [OF fl inv t first] show p: "p2 = t + 4" .
  from f n sl fl p show "parse_header isRequest ne s buf =
       Some (t + 4, None, s2\<lparr>calls := calls s2 @ [on_header], f_m := f_m s2 OR flagHeader\<rparr>)"
    by (simp add: parse_header_def)
qed

text \<open>
  Claim C8, as amended. For a view of \<open>n\<close> octets given to \<open>parse_header\<close>:
  with \<open>n < 4\<close> it returns zero with \<open>need_more\<close> and changes nothing; when no doubled
  CRLF begins at or after \<open>skip_\<close> it stores \<open>n - 3\<close> in the 32-bit \<open>skip_\<close>, which then
  holds \<open>(n - 3) mod 2^32\<close>, and returns zero with \<open>need_more\<close>; and when the first
  doubled CRLF of the view begins at \<open>t\<close>, not before \<open>skip_\<close>, every return leaves
  \<open>skip_\<close> zero and, when the start line and the fields parse without error, the
  parse ends at \<open>t + 4\<close> (the \<open>BOOST_ASSERT\<close> holds) and the call returns \<open>t + 4\<close>, the
  number of octets through the end of the terminator, with \<open>flagHeader\<close> set after
  \<open>on_header\<close>.
\<close>

theorem parse_header_cases:
  "(length buf < 4 \<longrightarrow>
      parse_header isRequest ne s buf = Some (0, Some need_more, s)) \<and>
   (4 \<le> length buf \<and> (\<forall>t\<ge>unat (skip_m s). \<not> crlf2_at buf t) \<longrightarrow>
      parse_header isRequest ne s buf =
        Some (0, Some need_more, s\<lparr>skip_m := of_nat (length buf - 3)\<rparr>) \<and>
      unat (of_nat (length buf - 3) :: 32 word) = (length buf - 3) mod 2 ^ 32) \<and>
   (unat (skip_m s) \<le> t \<and> crlf2_at buf t \<and> (\<forall>j<t. \<not> crlf2_at buf j) \<longrightarrow>
      (\<forall>n ec s'. parse_header isRequest ne s buf = Some (n, ec, s') \<longrightarrow> skip_m s' = 0) \<and>
      (\<forall>p1 s1 p2 s2.
         parse_startline isRequest buf 0 (s\<lparr>skip_m := 0\<rparr>) = Some (None, p1, s1) \<and>
         parse_fields ne buf p1 s1 = Some (None, p2, s2) \<longrightarrow>
         p2 = t + 4 \<and>
         parse_header isRequest ne s buf =
           Some (t + 4, None,
             s2\<lparr>calls := calls s2 @ [on_header], f_m := f_m s2 OR flagHeader\<rparr>) \<and>
         have_header (s2\<lparr>calls := calls s2 @ [on_header], f_m := f_m s2 OR flagHeader\<rparr>) \<and>
         skip_m (s2\<lparr>calls := calls s2 @ [on_header], f_m := f_m s2 OR flagHeader\<rparr>) = 0))"
proof (intro conjI impI allI)
  assume "length buf < 4"
  then show "parse_header isRequest ne s buf = Some (0, Some need_more, s)"
    by (rule parse_header_short)
next
  assume a: "4 \<le> length buf \<and> (\<forall>t\<ge>unat (skip_m s). \<not> crlf2_at buf t)"
  then show "parse_header isRequest ne s buf =
        Some (0, Some need_more, s\<lparr>skip_m := of_nat (length buf - 3)\<rparr>)"
    by (simp add: parse_header_not_found)
  show "unat (of_nat (length buf - 3) :: 32 word) = (length buf - 3) mod 2 ^ 32"
    by (simp add: unat_of_nat)
next
  fix n ec s'
  assume a: "unat (skip_m s) \<le> t \<and> crlf2_at buf t \<and> (\<forall>j<t. \<not> crlf2_at buf j)"
    and r: "parse_header isRequest ne s buf = Some (n, ec, s')"
  from a have "find_2x_crlf buf (unat (skip_m s)) (length buf) = Some t"
    by (simp add: find_2x_crlf_Some_iff)
  from parse_header_found_skip [OF this r] show "skip_m s' = 0" .
next
  fix p1 s1 p2 s2
  assume a: "unat (skip_m s) \<le> t \<and> crlf2_at buf t \<and> (\<forall>j<t. \<not> crlf2_at buf j)"
    and b: "parse_startline isRequest buf 0 (s\<lparr>skip_m := 0\<rparr>) = Some (None, p1, s1) \<and>
         parse_fields ne buf p1 s1 = Some (None, p2, s2)"
  from a b have sk: "unat (skip_m s) \<le> t" and t: "crlf2_at buf t"
    and first: "\<forall>j<t. \<not> crlf2_at buf j"
    and sl: "parse_startline isRequest buf 0 (s\<lparr>skip_m := 0\<rparr>) = Some (None, p1, s1)"
    and fl: "parse_fields ne buf p1 s1 = Some (None, p2, s2)" by simp_all
  from parse_header_found [OF sk t first sl fl]
  show "p2 = t + 4" and
    "parse_header isRequest ne s buf =
       Some (t + 4, None, s2\<lparr>calls := calls s2 @ [on_header], f_m := f_m s2 OR flagHeader\<rparr>)"
    by simp_all
  show "have_header (s2\<lparr>calls := calls s2 @ [on_header], f_m := f_m s2 OR flagHeader\<rparr>)"
    using have_header_set [of "s2\<lparr>calls := calls s2 @ [on_header]\<rparr>"] by simp
  from parse_startline_skip [OF sl] parse_fields_skip [OF fl]
  show "skip_m (s2\<lparr>calls := calls s2 @ [on_header], f_m := f_m s2 OR flagHeader\<rparr>) = 0"
    by simp
qed

theorem parse_header_cases_witness:
  "parse_header True False (new_parser 0) ''GET'' = Some (0, Some need_more, new_parser 0) \<and>
   parse_header True False (new_parser 0) ''GET / HT''
     = Some (0, Some need_more, (new_parser 0)\<lparr>skip_m := 5\<rparr>) \<and>
   parse_header True False ((new_parser 0)\<lparr>skip_m := 5\<rparr>) (''GET / HTTP/1.1'' @ CRLF @ CRLF)
     = Some (18, None,
         (new_parser 0)\<lparr>f_m := 8, calls := [on_request ''GET'' ''/'' 11, on_header]\<rparr>)"
proof (intro conjI)
  have "length ''GET'' < 4" by simp
  with parse_header_cases [of "''GET''" True False "new_parser 0"]
  show "parse_header True False (new_parser 0) ''GET'' = Some (0, Some need_more, new_parser 0)"
    by blast
next
  have "find_2x_crlf ''GET / HT'' (unat (skip_m (new_parser 0))) (length ''GET / HT'') = None"
    by (simp add: ev)
  then have "\<forall>t\<ge>unat (skip_m (new_parser 0)). \<not> crlf2_at ''GET / HT'' t"
    by (rule find_2x_crlf_None_iff [THEN iffD1])
  then have h: "4 \<le> length ''GET / HT'' \<and>
      (\<forall>t\<ge>unat (skip_m (new_parser 0)). \<not> crlf2_at ''GET / HT'' t)"
    by simp
  from parse_header_cases [of "''GET / HT''" True False "new_parser 0"] h
  have "parse_header True False (new_parser 0) ''GET / HT'' =
          Some (0, Some need_more, (new_parser 0)\<lparr>skip_m := of_nat (length ''GET / HT'' - 3)\<rparr>)"
    by blast
  then show "parse_header True False (new_parser 0) ''GET / HT''
     = Some (0, Some need_more, (new_parser 0)\<lparr>skip_m := 5\<rparr>)" by simp
next
  let ?buf = "''GET / HTTP/1.1'' @ CRLF @ CRLF"
  let ?s = "(new_parser 0)\<lparr>skip_m := 5\<rparr>"
  let ?s1 = "(new_parser 0)\<lparr>calls := [on_request ''GET'' ''/'' 11]\<rparr>"
  have "find_2x_crlf ?buf 0 (length ?buf) = Some 14" by (simp add: ev)
  then have "0 \<le> (14::nat) \<and> crlf2_at ?buf 14 \<and>
      (\<forall>j. 0 \<le> j \<and> j < 14 \<longrightarrow> \<not> crlf2_at ?buf j)"
    by (rule find_2x_crlf_Some_iff [THEN iffD1])
  then have h: "unat (skip_m ?s) \<le> 14 \<and> crlf2_at ?buf 14 \<and> (\<forall>j<14. \<not> crlf2_at ?buf j)"
    by simp
  have p: "parse_startline True ?buf 0 (?s\<lparr>skip_m := 0\<rparr>) = Some (None, 16, ?s1) \<and>
           parse_fields False ?buf 16 ?s1 = Some (None, 18, ?s1)"
    by (simp add: ev)
  from parse_header_cases [of ?buf True False ?s 14] h p
  have "parse_header True False ?s ?buf =
          Some (14 + 4, None, ?s1\<lparr>calls := calls ?s1 @ [on_header], f_m := f_m ?s1 OR flagHeader\<rparr>)"
    by blast
  then show "parse_header True False ?s ?buf
     = Some (18, None,
         (new_parser 0)\<lparr>f_m := 8, calls := [on_request ''GET'' ''/'' 11, on_header]\<rparr>)"
    by (simp add: new_parser_def flag_defs)
qed

text \<open>
  A view of \<open>2^32 + 3\<close> octets without a CR leaves \<open>skip_\<close> at zero, not at \<open>n - 3\<close>. And
  a view that does not extend the one searched before, so that a doubled CRLF begins
  before \<open>skip_\<close>: the search finds the second terminator, the parse ends at the
  first, and the \<open>BOOST_ASSERT\<close> fails.
\<close>

lemma no_crlf2_without_CR: "CR \<notin> set buf \<Longrightarrow> \<not> crlf2_at buf t"
proof
  assume n: "CR \<notin> set buf" and c: "crlf2_at buf t"
  from crlf2_at_nth(1,2) [OF c] have "t < length buf" "buf ! t = CR" by simp_all
  then have "CR \<in> set buf" by (metis nth_mem)
  with n show False by simp
qed

theorem parse_header_counterexample:
  "parse_header True False (new_parser 0) (replicate (2 ^ 32 + 3) (CHR ''a''))
     = Some (0, Some need_more, new_parser 0) \<and>
   skip_m (new_parser 0) = 0 \<and>
   length (replicate (2 ^ 32 + 3) (CHR ''a'')) - 3 = (2 ^ 32 :: nat) \<and>
   write_bufs True False (new_parser 0) [''XXXXXXXXXXXXXXXXXXX'']
     = Some (0, Some need_more, (new_parser 0)\<lparr>skip_m := 16\<rparr>) \<and>
   write_bufs True False ((new_parser 0)\<lparr>skip_m := 16\<rparr>)
     [''GET / HTTP/1.1'' @ CRLF @ CRLF @ ''XXXX'' @ CRLF @ CRLF] = None"
proof (intro conjI)
  let ?buf = "replicate (2 ^ 32 + 3) (CHR ''a'')"
  have l: "length ?buf = 2 ^ 32 + 3" by (simp only: length_replicate)
  have "CR \<notin> set ?buf" by (simp only: set_replicate_conv_if) simp
  then have "\<forall>t\<ge>unat (skip_m (new_parser 0)). \<not> crlf2_at ?buf t"
    by (simp add: no_crlf2_without_CR)
  moreover have "4 \<le> length ?buf" unfolding l by simp
  ultimately have "parse_header True False (new_parser 0) ?buf =
      Some (0, Some need_more, (new_parser 0)\<lparr>skip_m := of_nat (length ?buf - 3)\<rparr>)"
    by (rule parse_header_not_found [rotated])
  moreover have "(of_nat (length ?buf - 3) :: 32 word) = 0" unfolding l by simp
  ultimately show "parse_header True False (new_parser 0) ?buf
     = Some (0, Some need_more, new_parser 0)"
    by (simp add: new_parser_def)
  show "length ?buf - 3 = (2 ^ 32 :: nat)" unfolding l by simp
qed (simp_all add: ev)

section \<open>The read loop of the test suite (new_parser.cpp)\<close>

text \<open>
  The stream is the list of the segments in which the octets of the message arrive:
  \<open>read_some\<close> into a buffer of \<open>cap\<close> octets yields the next segment, or its first
  \<open>cap\<close> octets, and \<open>None\<close> (\<open>boost::asio::error::eof\<close>) when no segment is left.
\<close>

definition read_some :: "string list \<Rightarrow> nat \<Rightarrow> (string \<times> string list) option" where
  "read_some stream cap =
     (case stream of
        [] \<Rightarrow> None
      | seg # rest \<Rightarrow>
          if length seg \<le> cap then Some (seg, rest)
          else Some (take cap seg, drop cap seg # rest))"

text \<open>
  How \<open>new_read\<close> ends: it returns with \<open>ec\<close> clear, with an error of the parser, with
  \<open>eof\<close> of the stream, or not at all (a \<open>BOOST_ASSERT\<close> fails or the parser reads
  outside its view); or the model runs out of fuel.
\<close>

datatype outcome = finished | failed error | eof | aborted | out_of_fuel

text \<open>
  The loop \<open>for(;;)\<close> that reads and parses the header: \<open>write\<close> on the dynamic buffer
  (a \<open>flat_streambuf\<close>, one octet range), more octets from the stream on \<open>need_more\<close>.
  On \<open>eof\<close> it calls \<open>write_eof\<close>, which may replace the \<open>eof\<close> in \<open>ec\<close>, and returns.
  The result carries the parser, the dynamic buffer, the stream and the value that the
  successful \<open>write\<close> returned.
\<close>

function read_header ::
  "nat \<Rightarrow> bool \<Rightarrow> bool \<Rightarrow> parser \<Rightarrow> string \<Rightarrow> string list \<Rightarrow>
     outcome \<times> parser \<times> string \<times> string list \<times> nat" where
  "read_header fuel isRequest ne p dynabuf stream =
     (if fuel = 0 then (out_of_fuel, p, dynabuf, stream, 0)
      else
        (case write_bufs isRequest ne p [dynabuf] of
           None \<Rightarrow> (aborted, p, dynabuf, stream, 0)
         | Some (n, None, p') \<Rightarrow> (finished, p', drop n dynabuf, stream, n)
         | Some (n, Some e, p') \<Rightarrow>
             if e \<noteq> need_more then (failed e, p', dynabuf, stream, 0)
             else
               (case read_some stream 65536 of
                  None \<Rightarrow>
                    (case write_eof p' of
                       (None, p'') \<Rightarrow> (eof, p'', dynabuf, stream, 0)
                     | (Some e', p'') \<Rightarrow> (failed e', p'', dynabuf, stream, 0))
                | Some (bytes, stream') \<Rightarrow>
                    read_header (fuel - 1) isRequest ne p' (dynabuf @ bytes) stream')))"
  by pat_completeness auto
termination
  by (relation "measure (\<lambda>(fuel, isRequest, ne, p, dynabuf, stream). fuel)") auto

declare read_header.simps [simp del]

text \<open>
  The loop that reads a chunk delimiter (\<open>maybe read chunk delimiter\<close>): as above, but
  \<open>eof\<close> of the stream is returned as it is.
\<close>

function read_chunk ::
  "nat \<Rightarrow> bool \<Rightarrow> bool \<Rightarrow> parser \<Rightarrow> string \<Rightarrow> string list \<Rightarrow>
     outcome \<times> parser \<times> string \<times> string list \<times> nat" where
  "read_chunk fuel isRequest ne p dynabuf stream =
     (if fuel = 0 then (out_of_fuel, p, dynabuf, stream, 0)
      else
        (case write_bufs isRequest ne p [dynabuf] of
           None \<Rightarrow> (aborted, p, dynabuf, stream, 0)
         | Some (n, None, p') \<Rightarrow> (finished, p', drop n dynabuf, stream, n)
         | Some (n, Some e, p') \<Rightarrow>
             if e \<noteq> need_more then (failed e, p', dynabuf, stream, 0)
             else
               (case read_some stream 1024 of
                  None \<Rightarrow> (eof, p', dynabuf, stream, 0)
                | Some (bytes, stream') \<Rightarrow>
                    read_chunk (fuel - 1) isRequest ne p' (dynabuf @ bytes) stream')))"
  by pat_completeness auto
termination
  by (relation "measure (\<lambda>(fuel, isRequest, ne, p, dynabuf, stream). fuel)") auto

declare read_chunk.simps [simp del]

text \<open>
  The loop that reads the rest of the chunk from the stream into the reader
  (\<open>read remaining part of chunk\<close>). At \<open>eof\<close> it calls \<open>write_eof\<close> and asserts
  \<open>p.done()\<close>.
\<close>

function read_remain ::
  "nat \<Rightarrow> parser \<Rightarrow> reader \<Rightarrow> string list \<Rightarrow> outcome \<times> parser \<times> reader \<times> string list" where
  "read_remain fuel p r stream =
     (if fuel = 0 then (out_of_fuel, p, r, stream)
      else if remain p = 0 then (finished, p, r, stream)
      else
        (let r1 = reader_prepare r (unat (remain p))
         in case read_some stream (unat (remain p)) of
              None \<Rightarrow>
                (case write_eof p of
                   (Some e, p') \<Rightarrow> (failed e, p', r1, stream)
                 | (None, p') \<Rightarrow>
                     if is_done p' then (finished, p', r1, stream)
                     else (aborted, p', r1, stream))
            | Some (bytes, stream') \<Rightarrow>
                read_remain (fuel - 1) (consume p (of_nat (length bytes)))
                  (reader_commit (reader_put r1 bytes) (length bytes)) stream'))"
  by pat_completeness auto
termination
  by (relation "measure (\<lambda>(fuel, p, r, stream). fuel)") auto

declare read_remain.simps [simp del]

text \<open>
  The loop \<open>while(! p.done())\<close>; \<open>ns\<close> collects the values returned by the successful
  calls of \<open>write\<close>.
\<close>

function read_body ::
  "nat \<Rightarrow> bool \<Rightarrow> bool \<Rightarrow> parser \<Rightarrow> reader \<Rightarrow> string \<Rightarrow> string list \<Rightarrow> nat list \<Rightarrow>
     outcome \<times> parser \<times> reader \<times> nat list" where
  "read_body fuel isRequest ne p r dynabuf stream ns =
     (if fuel = 0 then (out_of_fuel, p, r, ns)
      else if is_done p then (finished, p, reader_finish r, ns)
      else
        (case read_chunk fuel isRequest ne p dynabuf stream of
           (finished, p1, dynabuf1, stream1, n) \<Rightarrow>
             (case write_body p1 r dynabuf1 of
                (p2, r2, dynabuf2) \<Rightarrow>
                  (case read_remain fuel p2 r2 stream1 of
                     (finished, p3, r3, stream3) \<Rightarrow>
                       read_body (fuel - 1) isRequest ne p3 r3 dynabuf2 stream3 (ns @ [n])
                   | (out, p3, r3, stream3) \<Rightarrow> (out, p3, r3, ns @ [n])))
         | (out, p1, dynabuf1, stream1, n) \<Rightarrow> (out, p1, r, ns)))"
  by pat_completeness auto
termination
  by (relation "measure (\<lambda>(fuel, isRequest, ne, p, r, dynabuf, stream, ns). fuel)") auto

declare read_body.simps [simp del]

text \<open>
  \<open>new_read\<close> with an empty dynamic buffer and an empty body: how it ends, the parser
  (with the calls it made to the host), the body, and the values returned by the
  successful calls of \<open>write\<close>. The two assertions after the first loop are
  \<open>p.have_header()\<close> and \<open>! p.done()\<close>.
\<close>

definition new_read ::
  "nat \<Rightarrow> bool \<Rightarrow> bool \<Rightarrow> 32 word \<Rightarrow> string list \<Rightarrow> outcome \<times> parser \<times> string \<times> nat list" where
  "new_read fuel isRequest ne x0 stream =
     (case read_header fuel isRequest ne (new_parser x0) [] stream of
        (finished, p, dynabuf, stream1, n) \<Rightarrow>
          if have_header p \<and> \<not> is_done p then
            (case read_body fuel isRequest ne p \<lparr>r_len = 0, body = []\<rparr> dynabuf stream1 [n] of
               (out, p', r, ns) \<Rightarrow> (out, p', body r, ns))
          else (aborted, p, [], [n])
      | (out, p, dynabuf, stream1, n) \<Rightarrow> (out, p, [], []))"

lemmas ev_read =
  reader_prepare_def reader_put_def reader_commit_def reader_finish_def clamp_def
  write_body_def read_some_def read_header.simps read_chunk.simps read_remain.simps
  read_body.simps new_read_def is_done_def have_header_def remain_def consume_def

definition chunked_msg :: string where
  "chunked_msg = ''HTTP/1.1 200 OK'' @ CRLF @ ''Transfer-Encoding: chunked'' @ CRLF @ CRLF @
     ''1'' @ CRLF @ ''*'' @ CRLF @ ''0;x'' @ CRLF @ ''A: b'' @ CRLF @ CRLF"

text \<open>
  Claim C1. \<open>parse_chunked\<close> sets \<open>flagFinalChunk\<close> only after it has found the doubled
  CRLF that ends the trailer; the branch \<open>if(f_ & flagFinalChunk)\<close> that parses the
  size again (\<open>We are parsing the value again to advance p to the right place\<close>) is
  written for a call that resumes after the size line of the last chunk. Without the
  flag, a call that has read the size \<open>0\<close> and not yet the end of the trailer leaves
  \<open>skip_ = n - 3\<close>, and the next call searches the CRLF of the size line from there,
  after a leading CRLF two octets further on: it takes a CRLF of the trailer, or the
  last one, for the end of the size line.

  The same response, read by \<open>new_read\<close>. In one segment it is parsed to the end.
  Cut after 60 of its 66 octets it is parsed to the end with other calls: the
  extension passed to \<open>on_chunk\<close> holds the trailer field, and \<open>on_field\<close> is not
  called for it. One octet at a time it is not parsed to the end: the last call of
  \<open>write\<close> assigns \<open>need_more\<close> on the whole message, and \<open>new_read\<close> returns with \<open>eof\<close>.
\<close>

theorem split_changes_parse:
  "new_read 100 False ne 0 [chunked_msg] =
     (finished,
      (new_parser 0)\<lparr>len_m := 0, skip_m := 5, x_m := 5, f_m := 122,
        calls := [on_response 200 ''OK'' 11, on_field ''Transfer-Encoding'' ''chunked'',
                  on_header, on_chunk 0 '';x'', on_field ''A'' ''b'']\<rparr>,
      ''*'', [47, 3, 15]) \<and>
   new_read 100 False ne 0 [take 60 chunked_msg, drop 60 chunked_msg] =
     (finished,
      (new_parser 0)\<lparr>len_m := 0, skip_m := 11, x_m := 11, f_m := 122,
        calls := [on_response 200 ''OK'' 11, on_field ''Transfer-Encoding'' ''chunked'',
                  on_header, on_chunk 0 ('';x'' @ CRLF @ ''A: b'')]\<rparr>,
      ''*'', [47, 3, 15]) \<and>
   new_read 100 False ne 0 (map (\<lambda>c. [c]) chunked_msg) =
     (eof,
      (new_parser 0)\<lparr>len_m := 0, skip_m := 12, x_m := 13, f_m := 42,
        calls := [on_response 200 ''OK'' 11, on_field ''Transfer-Encoding'' ''chunked'',
                  on_header]\<rparr>,
      ''*'', [47, 3])"
  by (simp add: ev ev_read chunked_msg_def)

end
